theory Spec2Isabelle
  imports Main "HOL-Library.Word"
begin

unbundle bit_operations_syntax

section \<open>Pool geometry and byte buffers\<close>

text \<open>
  The constants of \<^verbatim>\<open>random-csprng.c\<close>: a hash block of 64 bytes is
  turned into a digest of 20 bytes, 30 digests make up the pool, and each pool
  buffer is allocated with \<^verbatim>\<open>POOLSIZE + BLOCKLEN\<close> bytes so that the
  64 bytes behind the pool serve as the hash buffer.
\<close>

type_synonym byte = "8 word"

abbreviation BLOCKLEN :: nat where "BLOCKLEN \<equiv> 64"
abbreviation DIGESTLEN :: nat where "DIGESTLEN \<equiv> 20"
abbreviation POOLBLOCKS :: nat where "POOLBLOCKS \<equiv> 30"
abbreviation POOLSIZE :: nat where "POOLSIZE \<equiv> 600"

text \<open>
  \<^verbatim>\<open>memcpy (dst + off, src, length src)\<close> on a buffer held as a list.
\<close>

definition memcpy :: "byte list \<Rightarrow> nat \<Rightarrow> byte list \<Rightarrow> byte list" where
  "memcpy dst off src = take off dst @ src @ drop (off + length src) dst"

text \<open>
  Modelled from the spec: the hash primitive adapter (\<^verbatim>\<open>_gcry_sha1_mixblock_init\<close>,
  \<^verbatim>\<open>_gcry_sha1_mixblock\<close>, \<^verbatim>\<open>_gcry_sha1_hash_buffer\<close>) is not part of
  this file. \<open>mixblock\<close> treats a 64-byte buffer as one compression input, updates
  the context and yields the 20-byte result that is written over the first 20
  bytes of the buffer; \<open>hash_buffer\<close> is the digest of a byte range. A 20-byte
  result is given by its bytes at the indices \<open>0..19\<close>.
\<close>

record 'md hashprims =
  mixblock_init :: "'md"
  mixblock :: "'md \<Rightarrow> byte list \<Rightarrow> 'md \<times> (nat \<Rightarrow> byte)"
  hash_buffer :: "byte list \<Rightarrow> nat \<Rightarrow> byte"

definition digest_bytes :: "(nat \<Rightarrow> byte) \<Rightarrow> byte list" where
  "digest_bytes dg = map dg [0..<DIGESTLEN]"

section \<open>The mixer\<close>

text \<open>
  \<^verbatim>\<open>_gcry_sha1_mixblock (&md, hashbuf)\<close> with \<^verbatim>\<open>hashbuf = pool + POOLSIZE\<close>:
  the block behind the pool is hashed and its first 20 bytes are replaced.
\<close>

definition mixblock_hashbuf :: "'md hashprims \<Rightarrow> 'md \<Rightarrow> byte list \<Rightarrow> 'md \<times> byte list" where
  "mixblock_hashbuf H md pool =
     (case mixblock H md (drop POOLSIZE pool) of
        (md', dg) \<Rightarrow> (md', memcpy pool POOLSIZE (digest_bytes dg)))"

text \<open>
  The byte loop of the \<^verbatim>\<open>else\<close> branch: \<^verbatim>\<open>pp\<close> runs from \<^verbatim>\<open>p\<close> and is
  set back to the start of the pool when it has reached \<^verbatim>\<open>pend\<close>.
\<close>

fun wrap_copy :: "byte list \<Rightarrow> nat \<Rightarrow> nat \<Rightarrow> byte list" where
  "wrap_copy pool pp 0 = []"
| "wrap_copy pool pp (Suc k) =
     (let pp' = (if pp \<ge> POOLSIZE then 0 else pp)
      in pool ! pp' # wrap_copy pool (pp' + 1) k)"

text \<open>One pass of the body of \<^verbatim>\<open>for (n=1; n < POOLBLOCKS; n++)\<close>.\<close>

definition mix_iter :: "'md hashprims \<Rightarrow> 'md \<Rightarrow> byte list \<Rightarrow> nat \<Rightarrow> 'md \<times> byte list" where
  "mix_iter H md pool p =
     (let pool1 = (if p + BLOCKLEN < POOLSIZE
                   then memcpy pool POOLSIZE (take BLOCKLEN (drop p pool))
                   else memcpy pool POOLSIZE (wrap_copy pool p BLOCKLEN))
      in case mixblock_hashbuf H md pool1 of
           (md', pool2) \<Rightarrow>
             (md', memcpy pool2 (p + DIGESTLEN) (take DIGESTLEN (drop POOLSIZE pool2))))"

function mix_loop :: "'md hashprims \<Rightarrow> nat \<Rightarrow> 'md \<Rightarrow> byte list \<Rightarrow> nat \<Rightarrow> 'md \<times> byte list" where
  "mix_loop H n md pool p =
     (if n < POOLBLOCKS
      then (case mix_iter H md pool p of
              (md', pool') \<Rightarrow> mix_loop H (n + 1) md' pool' (p + DIGESTLEN))
      else (md, pool))"
  by pat_completeness auto
termination
  by (relation "measure (\<lambda>(H, n, md, pool, p). POOLBLOCKS - n)") auto

declare mix_loop.simps [simp del]

text \<open>
  The part of \<^verbatim>\<open>mix_pool\<close> that works on the buffer: the first block
  (\<^verbatim>\<open>pool_0 -> pool'\<close>), the failsafe digest xored in when \<open>fs\<close> holds one
  (\<^verbatim>\<open>failsafe_digest_valid && pool == rndpool\<close>), and the loop.
\<close>

definition xor_digest :: "byte list \<Rightarrow> byte list \<Rightarrow> byte list" where
  "xor_digest pool fd = map (\<lambda>i. pool ! i XOR fd ! i) [0..<DIGESTLEN] @ drop DIGESTLEN pool"

definition mix_buffer :: "'md hashprims \<Rightarrow> byte list option \<Rightarrow> byte list \<Rightarrow> byte list" where
  "mix_buffer H fs pool =
     (let pool1 = memcpy pool POOLSIZE (take DIGESTLEN (drop (POOLSIZE - DIGESTLEN) pool));
          pool2 = memcpy pool1 (POOLSIZE + DIGESTLEN) (take (BLOCKLEN - DIGESTLEN) pool)
      in case mixblock_hashbuf H (mixblock_init H) pool2 of
           (md, pool3) \<Rightarrow>
             (let pool4 = memcpy pool3 0 (take DIGESTLEN (drop POOLSIZE pool3));
                  pool5 = (case fs of None \<Rightarrow> pool4 | Some fd \<Rightarrow> xor_digest pool4 fd)
              in snd (mix_loop H 1 md pool5 0)))"

text \<open>
  The spec's wording of the block of an iteration: 64 bytes starting at \<open>p\<close>, with
  wrap-around at the end of the 600-byte pool.
\<close>

definition wrap_window :: "byte list \<Rightarrow> nat \<Rightarrow> byte list" where
  "wrap_window pool p = map (\<lambda>i. pool ! ((p + i) mod POOLSIZE)) [0..<BLOCKLEN]"

text \<open>
  A hash stub that records every block it is given and copies the first 20 bytes
  of its input to its output, and a pool whose byte at index \<open>i\<close> is \<open>i mod 256\<close>.
\<close>

definition rec_prims :: "(byte list list) hashprims" where
  "rec_prims = \<lparr> mixblock_init = [],
                 mixblock = (\<lambda>md blk. (md @ [blk], (\<lambda>i. blk ! i))),
                 hash_buffer = (\<lambda>bs i. 0) \<rparr>"

definition ramp_pool :: "byte list" where
  "ramp_pool = map of_nat [0..<POOLSIZE + BLOCKLEN]"

section \<open>Origins, levels, fatal exits\<close>

text \<open>
  Modelled from the spec: \<^verbatim>\<open>enum random_origins\<close> is declared in
  \<^verbatim>\<open>rand-internal.h\<close>, which is not part of this file. The spec places
  \<open>INIT\<close>, \<open>EXTERNAL\<close> and \<open>FASTPOLL\<close> below \<open>SLOWPOLL\<close> and
  \<open>EXTRAPOLL\<close> at or above it; \<open>origin_value\<close> gives the enumeration values.
\<close>

datatype random_origins =
    RANDOM_ORIGIN_INIT
  | RANDOM_ORIGIN_EXTERNAL
  | RANDOM_ORIGIN_FASTPOLL
  | RANDOM_ORIGIN_SLOWPOLL
  | RANDOM_ORIGIN_EXTRAPOLL

fun origin_value :: "random_origins \<Rightarrow> nat" where
  "origin_value RANDOM_ORIGIN_INIT = 0"
| "origin_value RANDOM_ORIGIN_EXTERNAL = 1"
| "origin_value RANDOM_ORIGIN_FASTPOLL = 2"
| "origin_value RANDOM_ORIGIN_SLOWPOLL = 3"
| "origin_value RANDOM_ORIGIN_EXTRAPOLL = 4"

text \<open>
  The levels are the integers that \<^verbatim>\<open>initialize_basics\<close> asserts:
  \<^verbatim>\<open>GCRY_WEAK_RANDOM == 0\<close>, \<^verbatim>\<open>GCRY_STRONG_RANDOM == 1\<close>,
  \<^verbatim>\<open>GCRY_VERY_STRONG_RANDOM == 2\<close>.
\<close>

abbreviation (input) GCRY_WEAK_RANDOM :: nat where "GCRY_WEAK_RANDOM \<equiv> 0"
abbreviation (input) GCRY_STRONG_RANDOM :: nat where "GCRY_STRONG_RANDOM \<equiv> 1"
abbreviation (input) GCRY_VERY_STRONG_RANDOM :: nat where "GCRY_VERY_STRONG_RANDOM \<equiv> 2"

text \<open>
  Every place where the code ends the process (\<^verbatim>\<open>gcry_assert\<close>,
  \<^verbatim>\<open>log_bug\<close>, \<^verbatim>\<open>BUG\<close>, \<^verbatim>\<open>log_fatal\<close>) is one value.
\<close>

datatype fatal =
    Assert_pool_is_locked
  | Log_bug_too_many_random_bits
  | BUG_initial_seeding
  | BUG_extra_seeding
  | BUG_seed_file_name
  | BUG_timer
  | Fatal_no_gather_module
  | Fatal_gather_not_initialized
  | Fatal_no_entropy
  | Fatal_seed_file_read

datatype gpg_err_code = GPG_ERR_NO_ERROR | GPG_ERR_INV_ARG

definition bindf :: "fatal + 'a \<Rightarrow> ('a \<Rightarrow> fatal + 'b) \<Rightarrow> fatal + 'b" where
  "bindf m f = (case m of Inl e \<Rightarrow> Inl e | Inr x \<Rightarrow> f x)"

section \<open>Machine integers\<close>

text \<open>
  The model is the LP64 little-endian build: \<^verbatim>\<open>size_t\<close> and
  \<^verbatim>\<open>unsigned long\<close> have 64 bits (\<^verbatim>\<open>SIZEOF_UNSIGNED_LONG == 8\<close>),
  \<^verbatim>\<open>int\<close> and \<^verbatim>\<open>pid_t\<close> have 32, \<^verbatim>\<open>time_t\<close> and
  \<^verbatim>\<open>clock_t\<close> have 64. \<open>word_bytes n w\<close> are the \<open>n\<close> bytes of an object
  in memory, \<open>bytes_word\<close> reads an \<^verbatim>\<open>unsigned long\<close> back.
\<close>

abbreviation SIZE_MAX :: nat where "SIZE_MAX \<equiv> 18446744073709551615"
abbreviation POOLWORDS :: nat where "POOLWORDS \<equiv> 75"
abbreviation ADD_VALUE :: "64 word" where "ADD_VALUE \<equiv> 0xa5a5a5a5a5a5a5a5"

definition word_bytes :: "nat \<Rightarrow> 'a::len word \<Rightarrow> byte list" where
  "word_bytes n w = map (\<lambda>i. ucast (drop_bit (8 * i) w)) [0..<n]"

definition bytes_word :: "byte list \<Rightarrow> 64 word" where
  "bytes_word bs = foldr (\<lambda>b w. ucast b OR push_bit 8 w) bs 0"

text \<open>Conversion of an \<^verbatim>\<open>int\<close> to \<^verbatim>\<open>size_t\<close> and back (the low 32 bits, two's complement).\<close>

definition size_t_of_int :: "int \<Rightarrow> nat" where
  "size_t_of_int i = nat (i mod 2 ^ 64)"

definition int_of_size_t :: "nat \<Rightarrow> int" where
  "int_of_size_t n = sint (word_of_nat n :: 32 word)"

definition size_t_sub :: "nat \<Rightarrow> nat \<Rightarrow> nat" where
  "size_t_sub a b = (a + (SIZE_MAX + 1 - b mod (SIZE_MAX + 1))) mod (SIZE_MAX + 1)"

definition size_t_add :: "nat \<Rightarrow> nat \<Rightarrow> nat" where
  "size_t_add a b = (a + b) mod (SIZE_MAX + 1)"

section \<open>Module state and environment\<close>

text \<open>
  What \<^verbatim>\<open>open\<close>, \<^verbatim>\<open>lock_seed_file\<close>, \<^verbatim>\<open>fstat\<close> and
  \<^verbatim>\<open>read\<close> find for the seed file: for a regular file its
  \<^verbatim>\<open>st_size\<close> and what \<^verbatim>\<open>read (fd, buffer, POOLSIZE)\<close> delivers once it
  is not interrupted (\<open>None\<close> for \<open>-1\<close>).
\<close>

datatype seed_file =
    SF_enoent
  | SF_open_failed
  | SF_lock_failed
  | SF_stat_failed
  | SF_not_regular
  | SF_regular nat "byte list option"

text \<open>
  How the attempt of \<^verbatim>\<open>_gcry_rngcsprng_update_seed_file\<close> to write the seed
  file ends, in the build with \<^verbatim>\<open>LOCK_SEED_FILE\<close>: \<^verbatim>\<open>open\<close> fails,
  \<^verbatim>\<open>lock_seed_file\<close> fails, \<^verbatim>\<open>ftruncate\<close> fails, or
  \<^verbatim>\<open>write\<close> is reached and stores the given number of bytes
  (\<^verbatim>\<open>POOLSIZE\<close> when it succeeds, fewer when it does not). And the seed file
  after the attempt: \<^verbatim>\<open>open\<close> with \<^verbatim>\<open>O_CREAT\<close> leaves an empty file
  where there was none, and \<^verbatim>\<open>ftruncate\<close> empties the file before
  \<^verbatim>\<open>write\<close> stores the first bytes of \<^verbatim>\<open>keypool\<close>.
\<close>

datatype seed_write = SW_open_failed | SW_lock_failed | SW_truncate_failed | SW_write nat

definition write_seed_file :: "seed_write \<Rightarrow> byte list \<Rightarrow> seed_file \<Rightarrow> seed_file" where
  "write_seed_file w kp sf =
     (case w of
        SW_open_failed \<Rightarrow> sf
      | SW_lock_failed \<Rightarrow> (if sf = SF_enoent then SF_regular 0 (Some []) else sf)
      | SW_truncate_failed \<Rightarrow> (if sf = SF_enoent then SF_regular 0 (Some []) else sf)
      | SW_write n \<Rightarrow> SF_regular (min n POOLSIZE) (Some (take (min n POOLSIZE) kp)))"

text \<open>
  The environment of a run. The hash primitives; the readings of
  \<^verbatim>\<open>getpid\<close>, \<^verbatim>\<open>time\<close> and \<^verbatim>\<open>clock\<close>, each given by the number
  of readings taken before it; what \<^verbatim>\<open>getfnc_gather_random\<close> and
  \<^verbatim>\<open>getfnc_fast_random_poll\<close> find; the buffers that the fast gatherer,
  the build's timer and resource-usage samples and \<^verbatim>\<open>_gcry_rndhw_poll_fast\<close>
  hand to their callback in a fast poll; whether the timer call of the build fails;
  whether \<^verbatim>\<open>_gcry_rndjent_get_version\<close> reports a jitter RNG; how an
  attempt to write the seed file ends.
\<close>

record 'md env =
  e_hash :: "'md hashprims"
  e_getpid :: "nat \<Rightarrow> 32 word"
  e_time :: "nat \<Rightarrow> 64 word"
  e_clock :: "nat \<Rightarrow> 64 word"
  e_gather_module :: bool
  e_fast_module :: bool
  e_fast_gather :: "nat \<Rightarrow> byte list list"
  e_timers :: "nat \<Rightarrow> byte list list"
  e_timer_fails :: "nat \<Rightarrow> bool"
  e_hw_poll :: "nat \<Rightarrow> byte list list"
  e_jent :: bool
  e_seed_write :: seed_write

text \<open>
  The static variables of the file. A pool pointer is \<open>None\<close> for
  \<^verbatim>\<open>NULL\<close>; \<open>slow_gather_fnc\<close> and \<open>fast_gather_fnc\<close> say whether the
  function pointer is set. \<open>failsafe_digest\<close>, \<open>failsafe_digest_valid\<close> and
  \<open>my_pid\<close> are the function-local statics of \<^verbatim>\<open>mix_pool\<close> and
  \<^verbatim>\<open>read_pool\<close>, \<open>initialized\<close> the one of \<^verbatim>\<open>initialize_basics\<close>.
  The last four fields are the outside world: the number of environment readings
  taken so far, the replies the slow gatherer will give to its next calls (the
  buffers it hands to the callback and its return value; with no reply left it
  fails), the requests made to it so far (origin, length, level), and the seed
  file.
\<close>

record rng =
  rndpool :: "byte list option"
  keypool :: "byte list option"
  pool_writepos :: nat
  pool_readpos :: nat
  pool_filled :: bool
  pool_filled_counter :: nat
  did_initial_extra_seeding :: bool
  pool_balance :: int
  just_mixed :: bool
  seed_file_name :: "string option"
  allow_seed_file_update :: bool
  secure_alloc :: bool
  slow_gather_fnc :: bool
  fast_gather_fnc :: bool
  quick_test :: bool
  pool_is_locked :: bool
  initialized :: bool
  mixrnd :: "64 word"
  mixkey :: "64 word"
  slowpolls :: "64 word"
  fastpolls :: "64 word"
  getbytes1 :: "64 word"
  ngetbytes1 :: "64 word"
  getbytes2 :: "64 word"
  ngetbytes2 :: "64 word"
  addbytes :: "64 word"
  naddbytes :: "64 word"
  failsafe_digest :: "byte list"
  failsafe_digest_valid :: bool
  my_pid :: "32 word"
  w_clock :: nat
  w_gather :: "(byte list list \<times> int) list"
  w_trace :: "(random_origins \<times> nat \<times> nat) list"
  w_seed_file :: seed_file

text \<open>The state of a process at its start: static storage is zero, \<open>my_pid\<close> is \<open>-1\<close>.\<close>

definition init_state :: "seed_file \<Rightarrow> (byte list list \<times> int) list \<Rightarrow> rng" where
  "init_state sf replies =
     \<lparr> rndpool = None, keypool = None, pool_writepos = 0, pool_readpos = 0,
       pool_filled = False, pool_filled_counter = 0, did_initial_extra_seeding = False,
       pool_balance = 0, just_mixed = False, seed_file_name = None,
       allow_seed_file_update = False, secure_alloc = False, slow_gather_fnc = False,
       fast_gather_fnc = False, quick_test = False, pool_is_locked = False,
       initialized = False, mixrnd = 0, mixkey = 0, slowpolls = 0, fastpolls = 0,
       getbytes1 = 0, ngetbytes1 = 0, getbytes2 = 0, ngetbytes2 = 0, addbytes = 0,
       naddbytes = 0, failsafe_digest = replicate DIGESTLEN 0,
       failsafe_digest_valid = False, my_pid = - 1, w_clock = 0, w_gather = replies,
       w_trace = [], w_seed_file = sf \<rparr>"

definition getpid :: "'md env \<Rightarrow> rng \<Rightarrow> 32 word \<times> rng" where
  "getpid E s = (e_getpid E (w_clock s), s\<lparr>w_clock := w_clock s + 1\<rparr>)"

definition initialize_basics :: "rng \<Rightarrow> rng" where
  "initialize_basics s = (if \<not> initialized s then s\<lparr>initialized := True\<rparr> else s)"

text \<open>
  Taking and releasing the pool lock. The model is one thread of control, so
  \<^verbatim>\<open>gpgrt_lock_lock\<close> and \<^verbatim>\<open>gpgrt_lock_unlock\<close> do not fail.
\<close>

definition lock_pool :: "rng \<Rightarrow> rng" where
  "lock_pool s = s\<lparr>pool_is_locked := True\<rparr>"

definition unlock_pool :: "rng \<Rightarrow> rng" where
  "unlock_pool s = s\<lparr>pool_is_locked := False\<rparr>"

section \<open>Mixing and accumulating on the state\<close>

datatype pool_id = RNDPOOL | KEYPOOL

definition mix_pool :: "'md env \<Rightarrow> pool_id \<Rightarrow> rng \<Rightarrow> fatal + rng" where
  "mix_pool E which s =
     (if \<not> pool_is_locked s then Inl Assert_pool_is_locked
      else case which of
        RNDPOOL \<Rightarrow>
          (let pool' = mix_buffer (e_hash E)
                         (if failsafe_digest_valid s then Some (failsafe_digest s) else None)
                         (the (rndpool s))
           in Inr (s\<lparr>rndpool := Some pool',
                      failsafe_digest := digest_bytes (hash_buffer (e_hash E) (take POOLSIZE pool')),
                      failsafe_digest_valid := True\<rparr>))
      | KEYPOOL \<Rightarrow>
          Inr (s\<lparr>keypool := Some (mix_buffer (e_hash E) None (the (keypool s)))\<rparr>))"

text \<open>\<^verbatim>\<open>rndpool[pool_writepos++] ^= *p++\<close>\<close>

definition xor_byte :: "byte \<Rightarrow> rng \<Rightarrow> rng" where
  "xor_byte b s =
     s\<lparr>rndpool := Some ((the (rndpool s))[pool_writepos s :=
                          the (rndpool s) ! pool_writepos s XOR b]),
       pool_writepos := pool_writepos s + 1\<rparr>"

text \<open>
  The body of \<^verbatim>\<open>if (pool_writepos >= POOLSIZE)\<close>, with the local
  \<^verbatim>\<open>count\<close> passed in and out; \<open>is_last\<close> is \<^verbatim>\<open>!length\<close>, which holds
  when no byte of the buffer is left.
\<close>

definition credit_filled :: "random_origins \<Rightarrow> nat \<Rightarrow> rng \<Rightarrow> rng \<times> nat" where
  "credit_filled origin count s =
     (if origin_value origin \<ge> origin_value RANDOM_ORIGIN_SLOWPOLL \<and> \<not> pool_filled s
      then (let c = size_t_add (pool_filled_counter s) count
            in (s\<lparr>pool_filled_counter := c,
                   pool_filled := (if c \<ge> POOLSIZE then True else pool_filled s)\<rparr>, 0))
      else (s, count))"

definition wrap_pool :: "'md env \<Rightarrow> random_origins \<Rightarrow> nat \<Rightarrow> bool \<Rightarrow> rng \<Rightarrow> fatal + (rng \<times> nat)" where
  "wrap_pool E origin count is_last s =
     (case credit_filled origin count s of
        (s1, count1) \<Rightarrow>
          bindf (mix_pool E RNDPOOL (s1\<lparr>pool_writepos := 0\<rparr>))
            (\<lambda>s2. Inr (s2\<lparr>mixrnd := mixrnd s2 + 1, just_mixed := is_last\<rparr>, count1)))"

text \<open>
  The loop of \<^verbatim>\<open>add_randomness\<close> over the bytes that are left, with the local
  \<^verbatim>\<open>count\<close>.
\<close>

fun add_loop :: "'md env \<Rightarrow> random_origins \<Rightarrow> byte list \<Rightarrow> nat \<Rightarrow> rng \<Rightarrow> fatal + rng" where
  "add_loop E origin [] count s = Inr s"
| "add_loop E origin (b # bs) count s =
     (let s1 = xor_byte b s;
          count1 = count + 1
      in if pool_writepos s1 \<ge> POOLSIZE
         then (case wrap_pool E origin count1 (bs = []) s1 of
                 Inl e \<Rightarrow> Inl e
               | Inr (s2, count2) \<Rightarrow> add_loop E origin bs count2 s2)
         else add_loop E origin bs count1 s1)"

definition add_randomness :: "'md env \<Rightarrow> byte list \<Rightarrow> random_origins \<Rightarrow> rng \<Rightarrow> fatal + rng" where
  "add_randomness E buffer origin s =
     (if \<not> pool_is_locked s then Inl Assert_pool_is_locked
      else add_loop E origin buffer 0
             (s\<lparr>addbytes := addbytes s + of_nat (length buffer),
                naddbytes := naddbytes s + 1\<rparr>))"

section \<open>Gathering entropy\<close>

text \<open>
  The slow gatherer hands its buffers to the callback \<^verbatim>\<open>add_randomness\<close>
  with the origin it was called with.
\<close>

fun deliver :: "'md env \<Rightarrow> random_origins \<Rightarrow> byte list list \<Rightarrow> rng \<Rightarrow> fatal + rng" where
  "deliver E origin [] s = Inr s"
| "deliver E origin (c # cs) s =
     (case add_randomness E c origin s of
        Inl e \<Rightarrow> Inl e
      | Inr s' \<Rightarrow> deliver E origin cs s')"

definition read_random_source ::
    "'md env \<Rightarrow> random_origins \<Rightarrow> nat \<Rightarrow> nat \<Rightarrow> rng \<Rightarrow> fatal + rng" where
  "read_random_source E origin len level s =
     (if \<not> slow_gather_fnc s then Inl Fatal_gather_not_initialized
      else
        (let s1 = s\<lparr>w_trace := w_trace s @ [(origin, len, level)]\<rparr>
         in case w_gather s1 of
              [] \<Rightarrow> Inl Fatal_no_entropy
            | (chunks, rc) # rest \<Rightarrow>
                bindf (deliver E origin chunks (s1\<lparr>w_gather := rest\<rparr>))
                  (\<lambda>s2. if rc < 0 then Inl Fatal_no_entropy else Inr s2)))"

definition random_poll :: "'md env \<Rightarrow> rng \<Rightarrow> fatal + rng" where
  "random_poll E s =
     read_random_source E RANDOM_ORIGIN_SLOWPOLL (POOLSIZE div 5) GCRY_STRONG_RANDOM
       (s\<lparr>slowpolls := slowpolls s + 1\<rparr>)"

definition do_fast_random_poll :: "'md env \<Rightarrow> rng \<Rightarrow> fatal + rng" where
  "do_fast_random_poll E s =
     (if \<not> pool_is_locked s then Inl Assert_pool_is_locked
      else
        (let t = w_clock s;
             s1 = s\<lparr>fastpolls := fastpolls s + 1, w_clock := t + 1\<rparr>
         in bindf (deliver E RANDOM_ORIGIN_FASTPOLL
                     (if fast_gather_fnc s1 then e_fast_gather E t else []) s1)
              (\<lambda>s2. if e_timer_fails E t then Inl BUG_timer
                     else deliver E RANDOM_ORIGIN_FASTPOLL
                            (e_timers E t
                             @ [word_bytes 8 (e_time E t), word_bytes 8 (e_clock E t)]
                             @ e_hw_poll E t) s2)))"

section \<open>The seed file\<close>

text \<open>
  What \<^verbatim>\<open>read_seed_file\<close> does with the \<^verbatim>\<open>POOLSIZE\<close> bytes it has
  read, after \<^verbatim>\<open>close (fd)\<close>.
\<close>

definition seed_file_mix :: "'md env \<Rightarrow> byte list \<Rightarrow> rng \<Rightarrow> fatal + (bool \<times> rng)" where
  "seed_file_mix E buffer s =
     bindf (add_randomness E buffer RANDOM_ORIGIN_INIT s) (\<lambda>s1.
       (case getpid E s1 of
          (x, s2) \<Rightarrow>
            bindf (add_randomness E (word_bytes 4 x) RANDOM_ORIGIN_INIT s2) (\<lambda>s3.
            bindf (add_randomness E (word_bytes 8 (e_time E (w_clock s3))) RANDOM_ORIGIN_INIT
                     (s3\<lparr>w_clock := w_clock s3 + 1\<rparr>)) (\<lambda>s4.
            bindf (add_randomness E (word_bytes 8 (e_clock E (w_clock s4))) RANDOM_ORIGIN_INIT
                     (s4\<lparr>w_clock := w_clock s4 + 1\<rparr>)) (\<lambda>s5.
            bindf (if e_jent E
                   then read_random_source E RANDOM_ORIGIN_INIT 128 GCRY_STRONG_RANDOM s5
                   else read_random_source E RANDOM_ORIGIN_INIT 32 GCRY_STRONG_RANDOM s5)
              (\<lambda>s6. Inr (True, s6\<lparr>allow_seed_file_update := True\<rparr>)))))))"

definition read_seed_file :: "'md env \<Rightarrow> rng \<Rightarrow> fatal + (bool \<times> rng)" where
  "read_seed_file E s =
     (if \<not> pool_is_locked s then Inl Assert_pool_is_locked
      else if seed_file_name s = None then Inr (False, s)
      else
        (case w_seed_file s of
           SF_enoent \<Rightarrow> Inr (False, s\<lparr>allow_seed_file_update := True\<rparr>)
         | SF_open_failed \<Rightarrow> Inr (False, s)
         | SF_lock_failed \<Rightarrow> Inr (False, s)
         | SF_stat_failed \<Rightarrow> Inr (False, s)
         | SF_not_regular \<Rightarrow> Inr (False, s)
         | SF_regular st_size rd \<Rightarrow>
             (if st_size = 0 then Inr (False, s\<lparr>allow_seed_file_update := True\<rparr>)
              else if st_size \<noteq> POOLSIZE then Inr (False, s)
              else
                (case rd of
                   None \<Rightarrow> Inl Fatal_seed_file_read
                 | Some buffer \<Rightarrow>
                     (if length buffer \<noteq> POOLSIZE then Inl Fatal_seed_file_read
                      else seed_file_mix E buffer s)))))"

text \<open>
  \<^verbatim>\<open>*dp = *sp + ADD_VALUE\<close> for the \<^verbatim>\<open>POOLWORDS\<close> words of the pool:
  the copy of \<^verbatim>\<open>rndpool\<close> into \<^verbatim>\<open>keypool\<close> at read-out.
\<close>

definition add_value_copy :: "byte list \<Rightarrow> byte list \<Rightarrow> byte list" where
  "add_value_copy kp rp =
     memcpy kp 0 (concat (map (\<lambda>i. word_bytes 8 (bytes_word (take 8 (drop (8 * i) rp)) + ADD_VALUE))
                            [0..<POOLWORDS]))"

definition update_seed_file :: "'md env \<Rightarrow> rng \<Rightarrow> fatal + rng" where
  "update_seed_file E s =
     (let s1 = lock_pool (initialize_basics s)
      in if seed_file_name s1 = None \<or> rndpool s1 = None \<or> \<not> pool_filled s1
         then Inr (unlock_pool s1)
         else if \<not> allow_seed_file_update s1 then Inr (unlock_pool s1)
         else
           (let s2 = s1\<lparr>keypool := Some (add_value_copy (the (keypool s1)) (the (rndpool s1)))\<rparr>
            in bindf (mix_pool E RNDPOOL s2) (\<lambda>s3.
               bindf (mix_pool E KEYPOOL (s3\<lparr>mixrnd := mixrnd s3 + 1\<rparr>)) (\<lambda>s4.
               (let s5 = s4\<lparr>mixkey := mixkey s4 + 1\<rparr>;
                    s6 = s5\<lparr>w_seed_file := write_seed_file (e_seed_write E) (the (keypool s5))
                                                 (w_seed_file s5)\<rparr>
                in Inr (unlock_pool s6))))))"

definition set_seed_file :: "string \<Rightarrow> rng \<Rightarrow> fatal + rng" where
  "set_seed_file name s =
     (if seed_file_name s \<noteq> None then Inl BUG_seed_file_name
      else Inr (s\<lparr>seed_file_name := Some name\<rparr>))"

section \<open>The extractor\<close>

text \<open>The fork check at the label \<^verbatim>\<open>retry\<close>; it yields \<^verbatim>\<open>my_pid2\<close>.\<close>

definition fork_check_pre :: "'md env \<Rightarrow> rng \<Rightarrow> fatal + (32 word \<times> rng)" where
  "fork_check_pre E s =
     (case getpid E s of (my_pid2, s1) \<Rightarrow>
        (let s2 = (if my_pid s1 = - 1 then s1\<lparr>my_pid := my_pid2\<rparr> else s1)
         in if my_pid s2 \<noteq> my_pid2
            then bindf (add_randomness E (word_bytes 4 my_pid2) RANDOM_ORIGIN_INIT
                          (s2\<lparr>my_pid := my_pid2\<rparr>))
                   (\<lambda>s3. Inr (my_pid2, s3\<lparr>just_mixed := False\<rparr>))
            else Inr (my_pid2, s2)))"

definition seed_on_demand :: "'md env \<Rightarrow> rng \<Rightarrow> fatal + rng" where
  "seed_on_demand E s =
     (if \<not> pool_filled s
      then bindf (read_seed_file E s)
             (\<lambda>(ok, s1). Inr (if ok then s1\<lparr>pool_filled := True\<rparr> else s1))
      else Inr s)"

text \<open>
  The two blocks for level 2. \<^verbatim>\<open>needed\<close> is a \<^verbatim>\<open>size_t\<close>, so
  \<^verbatim>\<open>length - pool_balance\<close>, \<^verbatim>\<open>pool_balance < length\<close> and
  \<^verbatim>\<open>pool_balance += needed\<close> are computed in \<^verbatim>\<open>size_t\<close>.
\<close>

definition extra_poll :: "'md env \<Rightarrow> nat \<Rightarrow> rng \<Rightarrow> fatal + rng" where
  "extra_poll E needed s =
     bindf (read_random_source E RANDOM_ORIGIN_EXTRAPOLL needed GCRY_VERY_STRONG_RANDOM s)
       (\<lambda>s1. Inr (s1\<lparr>pool_balance :=
                        int_of_size_t (size_t_add (size_t_of_int (pool_balance s1)) needed)\<rparr>))"

definition initial_extra_seeding :: "'md env \<Rightarrow> nat \<Rightarrow> nat \<Rightarrow> rng \<Rightarrow> fatal + rng" where
  "initial_extra_seeding E len level s =
     (if level = GCRY_VERY_STRONG_RANDOM \<and> \<not> did_initial_extra_seeding s
      then
        (let s1 = s\<lparr>pool_balance := 0\<rparr>;
             needed = size_t_sub len (size_t_of_int (pool_balance s1))
         in bindf (if needed < 16 then extra_poll E 16 s1
                   else if needed > POOLSIZE then Inl BUG_initial_seeding
                   else extra_poll E needed s1)
              (\<lambda>s2. Inr (s2\<lparr>did_initial_extra_seeding := True\<rparr>)))
      else Inr s)"

definition extra_seeding :: "'md env \<Rightarrow> nat \<Rightarrow> nat \<Rightarrow> rng \<Rightarrow> fatal + rng" where
  "extra_seeding E len level s =
     (if level = GCRY_VERY_STRONG_RANDOM \<and> size_t_of_int (pool_balance s) < len
      then
        (let s1 = (if pool_balance s < 0 then s\<lparr>pool_balance := 0\<rparr> else s);
             needed = size_t_sub len (size_t_of_int (pool_balance s1))
         in if needed > POOLSIZE then Inl BUG_extra_seeding
            else extra_poll E needed s1)
      else Inr s)"

text \<open>\<^verbatim>\<open>while (!pool_filled) random_poll ();\<close>\<close>

lemma add_loop_w_gather:
  "add_loop E origin bs count s = Inr s' \<Longrightarrow> w_gather s' = w_gather s"
proof (induction bs arbitrary: count s)
  case Nil
  then show ?case by simp
next
  case (Cons b bs)
  then show ?case
    by (auto simp: Let_def mix_pool_def xor_byte_def wrap_pool_def credit_filled_def bindf_def
             split: if_splits sum.splits prod.splits)
qed

lemma deliver_w_gather:
  "deliver E origin cs s = Inr s' \<Longrightarrow> w_gather s' = w_gather s"
proof (induction cs arbitrary: s)
  case Nil
  then show ?case by simp
next
  case (Cons c cs)
  then show ?case
    by (auto simp: add_randomness_def split: if_splits sum.splits dest!: add_loop_w_gather)
qed

lemma random_poll_w_gather:
  "random_poll E s = Inr s' \<Longrightarrow> length (w_gather s') < length (w_gather s)"
  by (auto simp: random_poll_def read_random_source_def bindf_def Let_def
           split: if_splits list.splits sum.splits dest!: deliver_w_gather)

function fill_pool :: "'md env \<Rightarrow> rng \<Rightarrow> fatal + rng" where
  "fill_pool E s =
     (if \<not> pool_filled s
      then (case random_poll E s of
              Inl e \<Rightarrow> Inl e
            | Inr s' \<Rightarrow> fill_pool E s')
      else Inr s)"
  by pat_completeness auto
termination
  by (relation "measure (\<lambda>(E, s). length (w_gather s))") (auto dest: random_poll_w_gather)

declare fill_pool.simps [simp del]

text \<open>
  \<^verbatim>\<open>while (length--)\<close>: the bytes are read from \<^verbatim>\<open>keypool\<close> at
  \<^verbatim>\<open>pool_readpos\<close> and stored through \<^verbatim>\<open>buffer\<close>, which is the
  caller's memory \<open>buffer\<close> at offset \<open>p\<close>.
\<close>

fun read_out :: "nat \<Rightarrow> byte list \<Rightarrow> nat \<Rightarrow> rng \<Rightarrow> byte list \<times> nat \<times> rng" where
  "read_out 0 buffer p s = (buffer, p, s)"
| "read_out (Suc n) buffer p s =
     read_out n (buffer[p := the (keypool s) ! pool_readpos s]) (p + 1)
       (s\<lparr>pool_readpos := (if pool_readpos s + 1 \<ge> POOLSIZE then 0 else pool_readpos s + 1),
          pool_balance := pool_balance s - 1\<rparr>)"

text \<open>
  From the fast poll to the mixing of both pools: the part of
  \<^verbatim>\<open>read_pool\<close> that derives \<^verbatim>\<open>keypool\<close>.
\<close>

definition derive_keypool :: "'md env \<Rightarrow> rng \<Rightarrow> fatal + rng" where
  "derive_keypool E s =
     bindf (do_fast_random_poll E s) (\<lambda>s1.
     bindf (add_randomness E (word_bytes 4 (my_pid s1)) RANDOM_ORIGIN_INIT s1) (\<lambda>s2.
     bindf (if \<not> just_mixed s2
            then bindf (mix_pool E RNDPOOL s2) (\<lambda>s'. Inr (s'\<lparr>mixrnd := mixrnd s' + 1\<rparr>))
            else Inr s2) (\<lambda>s3.
     bindf (mix_pool E RNDPOOL
              (s3\<lparr>keypool := Some (add_value_copy (the (keypool s3)) (the (rndpool s3)))\<rparr>)) (\<lambda>s4.
     bindf (mix_pool E KEYPOOL (s4\<lparr>mixrnd := mixrnd s4 + 1\<rparr>)) (\<lambda>s5.
       Inr (s5\<lparr>mixkey := mixkey s5 + 1\<rparr>))))))"

text \<open>
  The read-out, the clamp of \<^verbatim>\<open>pool_balance\<close> and
  \<^verbatim>\<open>memset (keypool, 0, POOLSIZE)\<close>.
\<close>

definition deliver_bytes :: "byte list \<Rightarrow> nat \<Rightarrow> nat \<Rightarrow> rng \<Rightarrow> byte list \<times> nat \<times> rng" where
  "deliver_bytes buffer p len s =
     (case read_out len buffer p s of
        (buffer', p', s1) \<Rightarrow>
          (let s2 = (if pool_balance s1 < 0 then s1\<lparr>pool_balance := 0\<rparr> else s1)
           in (buffer', p',
               s2\<lparr>keypool := Some (memcpy (the (keypool s2)) 0 (replicate POOLSIZE 0))\<rparr>)))"

text \<open>
  One pass through \<^verbatim>\<open>read_pool\<close> from the label \<^verbatim>\<open>retry\<close>. The
  result says whether the fork check at the end takes \<^verbatim>\<open>goto retry\<close>.
\<close>

definition read_pool_once ::
    "'md env \<Rightarrow> byte list \<Rightarrow> nat \<Rightarrow> nat \<Rightarrow> nat \<Rightarrow> rng \<Rightarrow> fatal + (bool \<times> byte list \<times> nat \<times> rng)" where
  "read_pool_once E buffer p len level s =
     bindf (fork_check_pre E s) (\<lambda>(my_pid2, s1).
       if \<not> pool_is_locked s1 then Inl Assert_pool_is_locked
       else if len > POOLSIZE then Inl Log_bug_too_many_random_bits
       else
         bindf (seed_on_demand E s1) (\<lambda>s2.
         bindf (initial_extra_seeding E len level s2) (\<lambda>s3.
         bindf (extra_seeding E len level s3) (\<lambda>s4.
         bindf (fill_pool E s4) (\<lambda>s5.
         bindf (derive_keypool E s5) (\<lambda>s6.
           (case deliver_bytes buffer p len s6 of
              (buffer', p', s7) \<Rightarrow>
                (case getpid E s7 of
                   (pid, s8) \<Rightarrow>
                     (if pid \<noteq> my_pid2
                      then (case getpid E s8 of
                              (x, s9) \<Rightarrow>
                                bindf (add_randomness E (word_bytes 4 x) RANDOM_ORIGIN_INIT s9)
                                  (\<lambda>s10. Inr (True, buffer', p',
                                                s10\<lparr>just_mixed := False, my_pid := x\<rparr>)))
                      else Inr (False, buffer', p', s8))))))))))"

lemma read_pool_once_length:
  "read_pool_once E buffer p len level s = Inr r \<Longrightarrow> len \<le> POOLSIZE"
  by (auto simp: read_pool_once_def bindf_def split: sum.splits prod.splits if_splits)

text \<open>
  \<^verbatim>\<open>goto retry\<close> is taken after \<^verbatim>\<open>while (length--)\<close> has counted
  \<^verbatim>\<open>length\<close> down past zero and has advanced \<^verbatim>\<open>buffer\<close>: the next pass
  runs with \<^verbatim>\<open>length == (size_t)-1\<close>.
\<close>

function read_pool_retry ::
    "'md env \<Rightarrow> byte list \<Rightarrow> nat \<Rightarrow> nat \<Rightarrow> nat \<Rightarrow> rng \<Rightarrow> fatal + (byte list \<times> rng)" where
  "read_pool_retry E buffer p len level s =
     (case read_pool_once E buffer p len level s of
        Inl e \<Rightarrow> Inl e
      | Inr (again, buffer', p', s') \<Rightarrow>
          if again then read_pool_retry E buffer' p' SIZE_MAX level s'
          else Inr (buffer', s'))"
  by pat_completeness auto
termination
  by (relation "measure (\<lambda>(E, buffer, p, len, level, s). if len \<le> POOLSIZE then 1 else 0)")
     (auto dest: read_pool_once_length)

declare read_pool_retry.simps [simp del]

definition read_pool :: "'md env \<Rightarrow> byte list \<Rightarrow> nat \<Rightarrow> nat \<Rightarrow> nat \<Rightarrow> rng \<Rightarrow> fatal + (byte list \<times> rng)" where
  "read_pool E buffer p len level s =
     (if \<not> pool_is_locked s then Inl Assert_pool_is_locked
      else read_pool_retry E buffer p len level s)"

section \<open>The public functions\<close>

text \<open>
  \<^verbatim>\<open>initialize\<close>: the pools are allocated zeroed with
  \<^verbatim>\<open>POOLSIZE + BLOCKLEN\<close> bytes; \<^verbatim>\<open>getfnc_gather_random\<close> ends the
  process when no gather module is found.
\<close>

definition initialize :: "'md env \<Rightarrow> rng \<Rightarrow> fatal + rng" where
  "initialize E s =
     (let s1 = lock_pool (initialize_basics s)
      in if rndpool s1 = None
         then (if \<not> e_gather_module E then Inl Fatal_no_gather_module
               else Inr (unlock_pool
                      (s1\<lparr>rndpool := Some (replicate (POOLSIZE + BLOCKLEN) 0),
                          keypool := Some (replicate (POOLSIZE + BLOCKLEN) 0),
                          slow_gather_fnc := True,
                          fast_gather_fnc := e_fast_module E\<rparr>)))
         else Inr (unlock_pool s1))"

definition rngcsprng_initialize :: "'md env \<Rightarrow> bool \<Rightarrow> rng \<Rightarrow> fatal + rng" where
  "rngcsprng_initialize E full s =
     (if \<not> full then Inr (initialize_basics s) else initialize E s)"

definition rngcsprng_close_fds :: "rng \<Rightarrow> rng" where
  "rngcsprng_close_fds s =
     unlock_pool ((lock_pool s)\<lparr>pool_writepos := 0, pool_readpos := 0, pool_filled := False,
                                pool_filled_counter := 0, did_initial_extra_seeding := False,
                                pool_balance := 0, just_mixed := False,
                                rndpool := None, keypool := None\<rparr>)"

definition rngcsprng_secure_alloc :: "rng \<Rightarrow> rng" where
  "rngcsprng_secure_alloc s = s\<lparr>secure_alloc := True\<rparr>"

definition rngcsprng_enable_quick_gen :: "rng \<Rightarrow> rng" where
  "rngcsprng_enable_quick_gen s = s\<lparr>quick_test := True\<rparr>"

definition rngcsprng_is_faked :: "'md env \<Rightarrow> rng \<Rightarrow> fatal + (bool \<times> rng)" where
  "rngcsprng_is_faked E s = bindf (initialize E s) (\<lambda>s1. Inr (quick_test s1, s1))"

text \<open>
  \<^verbatim>\<open>_gcry_rngcsprng_add_bytes\<close>. The caller's buffer is \<open>None\<close> for a null
  pointer and otherwise its \<^verbatim>\<open>buflen\<close> bytes. The loop takes and releases the
  lock once for every piece.
\<close>

definition add_bytes_step :: "'md env \<Rightarrow> byte list \<Rightarrow> rng \<Rightarrow> fatal + rng" where
  "add_bytes_step E piece s =
     (let s1 = lock_pool s
      in bindf (if rndpool s1 \<noteq> None
                then add_randomness E piece RANDOM_ORIGIN_EXTERNAL s1
                else Inr s1)
           (\<lambda>s2. Inr (unlock_pool s2)))"

function add_bytes_loop :: "'md env \<Rightarrow> byte list \<Rightarrow> rng \<Rightarrow> fatal + rng" where
  "add_bytes_loop E buf s =
     (if length buf \<noteq> 0
      then (let nbytes = (if length buf > POOLSIZE then POOLSIZE else length buf)
            in case add_bytes_step E (take nbytes buf) s of
                 Inl e \<Rightarrow> Inl e
               | Inr s' \<Rightarrow> add_bytes_loop E (drop nbytes buf) s')
      else Inr s)"
  by pat_completeness auto
termination
  by (relation "measure (\<lambda>(E, buf, s). length buf)") (auto split: if_splits)

declare add_bytes_loop.simps [simp del]

definition normalize_quality :: "int \<Rightarrow> int" where
  "normalize_quality quality =
     (if quality = - 1 then 35
      else if quality > 100 then 100
      else if quality < 0 then 0
      else quality)"

definition rngcsprng_add_bytes ::
    "'md env \<Rightarrow> byte list option \<Rightarrow> int \<Rightarrow> rng \<Rightarrow> fatal + (gpg_err_code \<times> rng)" where
  "rngcsprng_add_bytes E buf quality s =
     (let quality' = normalize_quality quality
      in case buf of
           None \<Rightarrow> Inr (GPG_ERR_INV_ARG, s)
         | Some bytes \<Rightarrow>
             if length bytes = 0 \<or> quality' < 10 then Inr (GPG_ERR_NO_ERROR, s)
             else bindf (add_bytes_loop E bytes (initialize_basics s))
                    (\<lambda>s'. Inr (GPG_ERR_NO_ERROR, s')))"

text \<open>
  \<^verbatim>\<open>_gcry_rngcsprng_randomize\<close>. The caller's memory is \<open>buffer\<close>, the
  pointer \<^verbatim>\<open>p\<close> an offset into it.
\<close>

function randomize_loop ::
    "'md env \<Rightarrow> byte list \<Rightarrow> nat \<Rightarrow> nat \<Rightarrow> nat \<Rightarrow> rng \<Rightarrow> fatal + (byte list \<times> rng)" where
  "randomize_loop E buffer p len level s =
     (if len > 0
      then (let n = (if len > POOLSIZE then POOLSIZE else len)
            in case read_pool E buffer p n level s of
                 Inl e \<Rightarrow> Inl e
               | Inr (buffer', s') \<Rightarrow> randomize_loop E buffer' (p + n) (len - n) level s')
      else Inr (buffer, s))"
  by pat_completeness auto
termination
  by (relation "measure (\<lambda>(E, buffer, p, len, level, s). len)") (auto split: if_splits)

declare randomize_loop.simps [simp del]

definition rngcsprng_randomize ::
    "'md env \<Rightarrow> byte list \<Rightarrow> nat \<Rightarrow> nat \<Rightarrow> rng \<Rightarrow> fatal + (byte list \<times> rng)" where
  "rngcsprng_randomize E buffer len level s =
     bindf (initialize E s) (\<lambda>s1.
       (let level1 = (if quick_test s1 \<and> level > GCRY_STRONG_RANDOM
                      then GCRY_STRONG_RANDOM else level);
            level2 = level1 AND 3;
            s2 = lock_pool s1;
            s3 = (if level2 \<ge> GCRY_VERY_STRONG_RANDOM
                  then s2\<lparr>getbytes2 := getbytes2 s2 + of_nat len,
                          ngetbytes2 := ngetbytes2 s2 + 1\<rparr>
                  else s2\<lparr>getbytes1 := getbytes1 s2 + of_nat len,
                          ngetbytes1 := ngetbytes1 s2 + 1\<rparr>)
        in bindf (randomize_loop E buffer 0 len level2 s3)
             (\<lambda>(buffer', s4). Inr (buffer', unlock_pool s4))))"

definition rngcsprng_fast_poll :: "'md env \<Rightarrow> rng \<Rightarrow> fatal + rng" where
  "rngcsprng_fast_poll E s =
     (let s1 = lock_pool (initialize_basics s)
      in bindf (if rndpool s1 \<noteq> None then do_fast_random_poll E s1 else Inr s1)
           (\<lambda>s2. Inr (unlock_pool s2)))"

text \<open>The public functions that take the pool lock, as one type of calls.\<close>

datatype public_op =
    Op_initialize bool
  | Op_close_fds
  | Op_add_bytes "byte list option" int
  | Op_randomize "byte list" nat nat
  | Op_update_seed_file
  | Op_fast_poll
  | Op_is_faked

fun run_op :: "'md env \<Rightarrow> public_op \<Rightarrow> rng \<Rightarrow> fatal + rng" where
  "run_op E (Op_initialize full) s = rngcsprng_initialize E full s"
| "run_op E Op_close_fds s = Inr (rngcsprng_close_fds s)"
| "run_op E (Op_add_bytes buf quality) s =
     bindf (rngcsprng_add_bytes E buf quality s) (\<lambda>(rc, s'). Inr s')"
| "run_op E (Op_randomize buffer len level) s =
     bindf (rngcsprng_randomize E buffer len level s) (\<lambda>(buffer', s'). Inr s')"
| "run_op E Op_update_seed_file s = update_seed_file E s"
| "run_op E Op_fast_poll s = rngcsprng_fast_poll E s"
| "run_op E Op_is_faked s = bindf (rngcsprng_is_faked E s) (\<lambda>(b, s'). Inr s')"

section \<open>Invariants and test data\<close>

text \<open>
  A pool buffer is allocated with its \<^verbatim>\<open>POOLSIZE + BLOCKLEN\<close> bytes; the two
  cursors stay inside the pool.
\<close>

definition rnd_ok :: "rng \<Rightarrow> bool" where
  "rnd_ok s = (case rndpool s of None \<Rightarrow> False | Some rp \<Rightarrow> length rp = POOLSIZE + BLOCKLEN)"

definition key_ok :: "rng \<Rightarrow> bool" where
  "key_ok s = (case keypool s of None \<Rightarrow> False | Some kp \<Rightarrow> length kp = POOLSIZE + BLOCKLEN)"

definition cursor_inv :: "rng \<Rightarrow> bool" where
  "cursor_inv s = (pool_writepos s < POOLSIZE \<and> pool_readpos s < POOLSIZE)"

text \<open>What \<^verbatim>\<open>add_randomness\<close> leaves alone.\<close>

definition acc_frame :: "rng \<Rightarrow> rng \<Rightarrow> bool" where
  "acc_frame s s' =
     (keypool s' = keypool s \<and> pool_readpos s' = pool_readpos s
      \<and> did_initial_extra_seeding s' = did_initial_extra_seeding s
      \<and> pool_balance s' = pool_balance s \<and> seed_file_name s' = seed_file_name s
      \<and> allow_seed_file_update s' = allow_seed_file_update s
      \<and> secure_alloc s' = secure_alloc s \<and> slow_gather_fnc s' = slow_gather_fnc s
      \<and> fast_gather_fnc s' = fast_gather_fnc s \<and> quick_test s' = quick_test s
      \<and> pool_is_locked s' = pool_is_locked s \<and> initialized s' = initialized s
      \<and> mixkey s' = mixkey s \<and> slowpolls s' = slowpolls s \<and> fastpolls s' = fastpolls s
      \<and> getbytes1 s' = getbytes1 s \<and> ngetbytes1 s' = ngetbytes1 s
      \<and> getbytes2 s' = getbytes2 s \<and> ngetbytes2 s' = ngetbytes2 s
      \<and> my_pid s' = my_pid s \<and> w_clock s' = w_clock s \<and> w_gather s' = w_gather s
      \<and> w_trace s' = w_trace s \<and> w_seed_file s' = w_seed_file s)"

text \<open>
  What a call of \<^verbatim>\<open>add_randomness\<close> with a given origin guarantees: the
  pool buffer keeps its size, the write cursor stays inside the pool, an origin
  below \<open>SLOWPOLL\<close> leaves the fill state alone, and a filled pool stays filled.
\<close>

definition acc_step :: "random_origins \<Rightarrow> rng \<Rightarrow> rng \<Rightarrow> bool" where
  "acc_step origin s s' =
     (acc_frame s s'
      \<and> (rnd_ok s \<longrightarrow> rnd_ok s')
      \<and> (pool_writepos s < POOLSIZE \<longrightarrow> pool_writepos s' < POOLSIZE)
      \<and> (origin_value origin < origin_value RANDOM_ORIGIN_SLOWPOLL \<longrightarrow>
            pool_filled s' = pool_filled s \<and> pool_filled_counter s' = pool_filled_counter s)
      \<and> (pool_filled s \<longrightarrow> pool_filled s'))"

text \<open>The bytes \<open>bs\<close> xored into a buffer from index \<open>w\<close> on, one after the other.\<close>

fun xor_at :: "byte list \<Rightarrow> nat \<Rightarrow> byte list \<Rightarrow> byte list" where
  "xor_at pool w [] = pool"
| "xor_at pool w (b # bs) = xor_at (pool[w := pool ! w XOR b]) (w + 1) bs"

text \<open>
  A hash stub with a constant digest, and an environment for runs: one process
  (\<^verbatim>\<open>getpid\<close> is constant), clocks at zero, a gather module but no fast
  gatherer, no jitter RNG.
\<close>

definition const_prims :: "unit hashprims" where
  "const_prims = \<lparr> mixblock_init = (),
                   mixblock = (\<lambda>md blk. (md, (\<lambda>i. 1))),
                   hash_buffer = (\<lambda>bs i. 1) \<rparr>"

definition test_env :: "unit env" where
  "test_env = \<lparr> e_hash = const_prims, e_getpid = (\<lambda>k. 4711), e_time = (\<lambda>k. 0),
                 e_clock = (\<lambda>k. 0), e_gather_module = True, e_fast_module = False,
                 e_fast_gather = (\<lambda>k. []), e_timers = (\<lambda>k. []),
                 e_timer_fails = (\<lambda>k. False), e_hw_poll = (\<lambda>k. []), e_jent = False,
                 e_seed_write = SW_write POOLSIZE \<rparr>"

text \<open>
  The same environment in a process where another thread forks while the first
  extraction runs: from its third reading on, \<^verbatim>\<open>getpid\<close> gives another pid.
\<close>

definition fork_env :: "unit env" where
  "fork_env = test_env\<lparr>e_getpid := (\<lambda>k. if k < 2 then 4711 else 4712)\<rparr>"

text \<open>
  The module after \<^verbatim>\<open>initialize\<close>, with the pool lock taken: the state in
  which the static functions run. The slow gatherer will answer with \<open>replies\<close>.
\<close>

definition locked_state :: "seed_file \<Rightarrow> (byte list list \<times> int) list \<Rightarrow> rng" where
  "locked_state sf replies =
     (init_state sf replies)
       \<lparr>rndpool := Some (replicate (POOLSIZE + BLOCKLEN) 0),
        keypool := Some (replicate (POOLSIZE + BLOCKLEN) 0),
        slow_gather_fnc := True, initialized := True, pool_is_locked := True\<rparr>"

text \<open>
  Two calls of \<^verbatim>\<open>add_randomness\<close> on the fresh pool, both with origin
  \<open>SLOWPOLL\<close>: 500 bytes, then 100 bytes, which together fill the pool once.
\<close>

definition after_two_adds :: "fatal + rng" where
  "after_two_adds =
     bindf (add_randomness test_env (replicate 500 0x5A) RANDOM_ORIGIN_SLOWPOLL
              (locked_state SF_enoent []))
       (add_randomness test_env (replicate 100 0x5A) RANDOM_ORIGIN_SLOWPOLL)"

text \<open>
  The locked module with a seed file registered, the file being a regular file of
  \<^verbatim>\<open>POOLSIZE\<close> zero bytes, and a slow gatherer that answers its next call
  with one buffer of 32 bytes.
\<close>

definition seeded_state :: rng where
  "seeded_state =
     (locked_state (SF_regular POOLSIZE (Some (replicate POOLSIZE 0))) [([replicate 32 7], 0)])
       \<lparr>seed_file_name := Some ''random_seed''\<rparr>"

text \<open>
  The locked module whose slow gatherer answers its next call with one buffer of
  64 bytes.
\<close>

definition polled_state :: rng where
  "polled_state = locked_state SF_enoent [([replicate 64 7], 0)]"

text \<open>
  The spec's wording of \<^verbatim>\<open>_gcry_rngcsprng_add_bytes\<close> for an accepted
  buffer: the buffer is cut into pieces of at most \<open>n\<close> bytes, and under the lock
  each piece is accumulated with origin \<open>EXTERNAL\<close> when the pool is allocated.
\<close>

function chunks_of :: "nat \<Rightarrow> 'a list \<Rightarrow> 'a list list" where
  "chunks_of n xs = (if xs = [] \<or> n = 0 then [] else take n xs # chunks_of n (drop n xs))"
  by pat_completeness auto
termination
  by (relation "measure (\<lambda>(n, xs). length xs)") auto

declare chunks_of.simps [simp del]

fun add_pieces :: "'md env \<Rightarrow> byte list list \<Rightarrow> rng \<Rightarrow> fatal + rng" where
  "add_pieces E [] s = Inr s"
| "add_pieces E (c # cs) s =
     bindf (if rndpool s \<noteq> None
            then add_randomness E c RANDOM_ORIGIN_EXTERNAL (lock_pool s)
            else Inr (lock_pool s))
       (\<lambda>s'. add_pieces E cs (unlock_pool s'))"

text \<open>The module after \<^verbatim>\<open>initialize\<close>, with the lock released.\<close>

definition idle_state :: rng where
  "idle_state = unlock_pool (locked_state SF_enoent [])"

text \<open>
  The requests with origin \<open>EXTRAPOLL\<close> among requests made to the slow
  gatherer, and what the steps of \<^verbatim>\<open>read_pool\<close> outside its two blocks for
  level 2 have in common: they keep \<^verbatim>\<open>pool_balance\<close> and
  \<^verbatim>\<open>did_initial_extra_seeding\<close>, and the requests they add to those made
  before are not of origin \<open>EXTRAPOLL\<close>.
\<close>

definition extra_requests ::
    "(random_origins \<times> nat \<times> nat) list \<Rightarrow> (random_origins \<times> nat \<times> nat) list" where
  "extra_requests tr = filter (\<lambda>(origin, n, level). origin = RANDOM_ORIGIN_EXTRAPOLL) tr"

definition quiet :: "rng \<Rightarrow> rng \<Rightarrow> bool" where
  "quiet s s' =
     (pool_balance s' = pool_balance s
      \<and> did_initial_extra_seeding s' = did_initial_extra_seeding s
      \<and> take (length (w_trace s)) (w_trace s') = w_trace s
      \<and> extra_requests (drop (length (w_trace s)) (w_trace s')) = [])"

text \<open>
  The module before its first call, with a slow gatherer that answers the first
  poll with \<^verbatim>\<open>POOLSIZE\<close> bytes, and the same module after
  \<^verbatim>\<open>initialize\<close> with the pool lock taken.
\<close>

definition fresh_state :: rng where
  "fresh_state = init_state SF_enoent [([replicate POOLSIZE 0x5A], 0)]"

definition fill_state :: rng where
  "fill_state = locked_state SF_enoent [([replicate POOLSIZE 0x5A], 0)]"

text \<open>
  What every step of \<^verbatim>\<open>read_pool\<close> before the read-out keeps: the lock,
  \<^verbatim>\<open>keypool\<close> and its cursor, the gather function, the write cursor inside
  the pool, the size of \<^verbatim>\<open>rndpool\<close>, and a filled pool.
\<close>

definition calm :: "rng \<Rightarrow> rng \<Rightarrow> bool" where
  "calm s s' =
     (pool_is_locked s' = pool_is_locked s \<and> keypool s' = keypool s
      \<and> pool_readpos s' = pool_readpos s \<and> slow_gather_fnc s' = slow_gather_fnc s
      \<and> (pool_writepos s < POOLSIZE \<longrightarrow> pool_writepos s' < POOLSIZE)
      \<and> (rnd_ok s \<longrightarrow> rnd_ok s')
      \<and> (pool_filled s \<longrightarrow> pool_filled s'))"

section \<open>The window of a mixing iteration\<close>

lemma wrap_copy_eq:
  "pp \<le> POOLSIZE \<Longrightarrow> wrap_copy pool pp k = map (\<lambda>i. pool ! ((pp + i) mod POOLSIZE)) [0..<k]"
proof (induction k arbitrary: pp)
  case 0
  then show ?case by simp
next
  case (Suc k)
  have shift: "\<And>f. map f [Suc 0..<Suc k] = map (\<lambda>i. f (Suc i)) [0..<k]"
    by (simp add: map_Suc_upt[symmetric] del: upt_Suc)
  show ?case
  proof (cases "pp = POOLSIZE")
    case True
    have "wrap_copy pool (Suc 0) k = map (\<lambda>i. pool ! ((Suc 0 + i) mod POOLSIZE)) [0..<k]"
      by (rule Suc.IH) simp
    then show ?thesis using True
      by (simp add: upt_conv_Cons shift del: upt_Suc)
  next
    case False
    with Suc.prems have lt: "pp < POOLSIZE" by simp
    have "wrap_copy pool (Suc pp) k = map (\<lambda>i. pool ! ((Suc pp + i) mod POOLSIZE)) [0..<k]"
      by (rule Suc.IH) (use lt in simp)
    then show ?thesis using lt
      by (simp add: upt_conv_Cons shift del: upt_Suc)
  qed
qed

lemma straight_copy_eq:
  assumes "p + BLOCKLEN < POOLSIZE" "POOLSIZE \<le> length pool"
  shows "take BLOCKLEN (drop p pool) = wrap_window pool p"
  using assms by (auto simp: wrap_window_def list_eq_iff_nth_eq)

lemma load_block_eq:
  assumes "p < POOLSIZE" "POOLSIZE \<le> length pool"
  shows "(if p + BLOCKLEN < POOLSIZE then take BLOCKLEN (drop p pool)
          else wrap_copy pool p BLOCKLEN) = wrap_window pool p"
  using assms straight_copy_eq[of p pool] wrap_copy_eq[of p pool BLOCKLEN]
  by (simp add: wrap_window_def)

lemma length_wrap_window [simp]: "length (wrap_window pool p) = BLOCKLEN"
  by (simp add: wrap_window_def)

lemma length_digest_bytes [simp]: "length (digest_bytes dg) = DIGESTLEN"
  by (simp add: digest_bytes_def)

lemma mix_iter_eq:
  assumes "p + 2 * DIGESTLEN \<le> POOLSIZE" "length pool = POOLSIZE + BLOCKLEN"
  shows "mix_iter H md pool p =
     (case mixblock H md (wrap_window pool p) of
        (md', dg) \<Rightarrow>
          (md', take (p + DIGESTLEN) pool @ digest_bytes dg
                @ drop (p + 2 * DIGESTLEN) (take POOLSIZE pool)
                @ digest_bytes dg @ drop DIGESTLEN (wrap_window pool p)))"
proof -
  let ?blk = "wrap_window pool p"
  have p1: "(if p + BLOCKLEN < POOLSIZE
                   then memcpy pool POOLSIZE (take BLOCKLEN (drop p pool))
                   else memcpy pool POOLSIZE (wrap_copy pool p BLOCKLEN))
        = take POOLSIZE pool @ ?blk"
    using load_block_eq[of p pool] assms
    by (auto simp: memcpy_def split: if_splits)
  show ?thesis
    unfolding mix_iter_def p1 Let_def mixblock_hashbuf_def
    using assms
    by (auto simp: memcpy_def split: prod.splits simp: min_def drop_take add.commute)
qed

lemma mix_loop_step:
  assumes "1 \<le> n" "n < POOLBLOCKS" "length pool = POOLSIZE + BLOCKLEN"
  shows "mix_loop H n md pool ((n - 1) * DIGESTLEN) =
     (case mixblock H md (wrap_window pool ((n - 1) * DIGESTLEN)) of
        (md', dg) \<Rightarrow>
          mix_loop H (n + 1) md'
            (take (n * DIGESTLEN) pool @ digest_bytes dg
               @ drop (n * DIGESTLEN + DIGESTLEN) (take POOLSIZE pool)
               @ digest_bytes dg @ drop DIGESTLEN (wrap_window pool ((n - 1) * DIGESTLEN)))
            (n * DIGESTLEN))"
proof -
  have p: "(n - 1) * DIGESTLEN + 2 * DIGESTLEN \<le> POOLSIZE" using assms by simp
  have e1: "(n - 1) * DIGESTLEN + DIGESTLEN = n * DIGESTLEN"
    using assms by (simp add: algebra_simps)
  have e2: "(n - 1) * DIGESTLEN + 2 * DIGESTLEN = n * DIGESTLEN + DIGESTLEN"
    using assms by (simp add: algebra_simps)
  show ?thesis
    apply (subst mix_loop.simps)
    apply (simp only: mix_iter_eq[OF p assms(3)] e1 e2)
    using assms by (simp split: prod.splits)
qed

lemma rec_prefix: "\<exists>rest. fst (mix_loop rec_prims n md pool p) = md @ rest"
proof (induction rec_prims n md pool p rule: mix_loop.induct)
  case (1 n md pool p)
  show ?case
  proof (cases "n < POOLBLOCKS")
    case True
    obtain md' pool' where it: "mix_iter rec_prims md pool p = (md', pool')" by force
    have "\<exists>r. md' = md @ r" using it
      by (auto simp: mix_iter_def mixblock_hashbuf_def rec_prims_def Let_def
               split: prod.splits if_splits)
    moreover have "\<exists>rest. fst (mix_loop rec_prims (n + 1) md' pool' (p + DIGESTLEN)) = md' @ rest"
      using 1[OF True it[symmetric]] by simp
    ultimately show ?thesis
      using True it by (subst mix_loop.simps) auto
  next
    case False
    then show ?thesis by (subst mix_loop.simps) simp
  qed
qed

lemma ramp_nth: "i < POOLSIZE + BLOCKLEN \<Longrightarrow> ramp_pool ! i = of_nat i"
  by (simp add: ramp_pool_def)

lemma length_ramp_pool: "length ramp_pool = POOLSIZE + BLOCKLEN"
  by (simp add: ramp_pool_def)

lemma rec_mixblock: "mixblock rec_prims md blk = (md @ [blk], (\<lambda>i. blk ! i))"
  by (simp add: rec_prims_def)

text \<open>
  C1, as the code has it. \<^verbatim>\<open>mix_pool\<close> starts the loop with \<open>n = 1\<close> and
  \<^verbatim>\<open>p = pool\<close>, and every iteration leaves \<open>p\<close> one digest further. In
  iteration \<open>n\<close> (\<open>1 \<le> n < POOLBLOCKS\<close>) the 64-byte block given to the hash is
  read from offset \<open>(n - 1) * DIGESTLEN\<close> of the pool, with wrap-around at the end
  of the 600 bytes; the 20-byte result is written to the pool at
  \<open>n * DIGESTLEN\<close> (and stays at the start of the hash buffer behind the pool), and
  the loop goes on with \<open>n + 1\<close>.
\<close>

theorem mix_loop_iteration:
  assumes "1 \<le> n" and "n < POOLBLOCKS" and "length pool = POOLSIZE + BLOCKLEN"
  shows "mix_loop H n md pool ((n - 1) * DIGESTLEN) =
     (let block = wrap_window pool ((n - 1) * DIGESTLEN);
          md' = fst (mixblock H md block);
          out = digest_bytes (snd (mixblock H md block))
      in mix_loop H (n + 1) md'
           (take (n * DIGESTLEN) pool @ out
              @ drop (n * DIGESTLEN + DIGESTLEN) (take POOLSIZE pool)
              @ out @ drop DIGESTLEN block)
           (n * DIGESTLEN))"
  using mix_loop_step[OF assms, of H md] by (simp add: Let_def split: prod.splits)

theorem mix_loop_iteration_witness:
  "(1::nat) \<le> 1 \<and> (1::nat) < POOLBLOCKS \<and> length ramp_pool = POOLSIZE + BLOCKLEN
   \<and> mix_loop rec_prims 1 [] ramp_pool ((1 - 1) * DIGESTLEN) =
       mix_loop rec_prims (1 + 1) [wrap_window ramp_pool ((1 - 1) * DIGESTLEN)]
         (take (1 * DIGESTLEN) ramp_pool
            @ digest_bytes (snd (mixblock rec_prims [] (wrap_window ramp_pool ((1 - 1) * DIGESTLEN))))
            @ drop (1 * DIGESTLEN + DIGESTLEN) (take POOLSIZE ramp_pool)
            @ digest_bytes (snd (mixblock rec_prims [] (wrap_window ramp_pool ((1 - 1) * DIGESTLEN))))
            @ drop DIGESTLEN (wrap_window ramp_pool ((1 - 1) * DIGESTLEN)))
         (1 * DIGESTLEN)"
proof -
  have a: "(1::nat) \<le> 1" "(1::nat) < POOLBLOCKS" "length ramp_pool = POOLSIZE + BLOCKLEN"
    by (simp_all add: ramp_pool_def)
  show ?thesis
    using a mix_loop_iteration[OF a, of rec_prims "[]"]
    by (simp add: Let_def rec_mixblock)
qed

text \<open>
  C1, as the claim states it, fails: in iteration \<open>n = 1\<close> of the loop, run on the
  pool whose byte \<open>i\<close> is \<open>i mod 256\<close> with the recording hash stub, the first
  block given to the hash is not the window at \<open>1 * DIGESTLEN\<close>.
\<close>

theorem mix_loop_window_counterexample:
  "hd (fst (mix_loop rec_prims 1 [] ramp_pool 0)) \<noteq> wrap_window ramp_pool (1 * DIGESTLEN)"
proof -
  have a: "(1::nat) \<le> 1" "(1::nat) < POOLBLOCKS" "length ramp_pool = POOLSIZE + BLOCKLEN"
    by (simp_all add: ramp_pool_def)
  note step = mix_loop_step[OF a, of rec_prims "[]", unfolded rec_mixblock prod.case]
  have "\<exists>rest. fst (mix_loop rec_prims 1 [] ramp_pool ((1 - 1) * DIGESTLEN))
          = ([] @ [wrap_window ramp_pool ((1 - 1) * DIGESTLEN)]) @ rest"
    unfolding step by (rule rec_prefix)
  then obtain rest where
    "fst (mix_loop rec_prims 1 [] ramp_pool 0) = wrap_window ramp_pool 0 # rest"
    by auto
  moreover have "wrap_window ramp_pool 0 ! 0 = 0" "wrap_window ramp_pool 20 ! 0 = 20"
    by (simp_all add: wrap_window_def ramp_nth)
  ultimately show ?thesis by auto
qed

section \<open>What mixing and accumulating preserve\<close>

lemma bindf_Inl [simp]: "bindf (Inl e) f = Inl e"
  by (simp add: bindf_def)

lemma bindf_Inr [simp]: "bindf (Inr x) f = f x"
  by (simp add: bindf_def)

lemma bindf_assoc: "bindf (bindf m f) g = bindf m (\<lambda>x. bindf (f x) g)"
  by (simp add: bindf_def split: sum.splits)

lemma case_sum_bindf: "(case m of Inl e \<Rightarrow> Inl e | Inr x \<Rightarrow> f x) = bindf m f"
  by (simp add: bindf_def)

lemma length_memcpy:
  "off + length src \<le> length dst \<Longrightarrow> length (memcpy dst off src) = length dst"
  by (simp add: memcpy_def)
lemma length_mix_loop:
  "1 \<le> n \<Longrightarrow> p = (n - 1) * DIGESTLEN \<Longrightarrow> length pool = POOLSIZE + BLOCKLEN
   \<Longrightarrow> length (snd (mix_loop H n md pool p)) = POOLSIZE + BLOCKLEN"
proof (induction H n md pool p rule: mix_loop.induct)
  case (1 H n md pool p)
  show ?case
  proof (cases "n < POOLBLOCKS")
    case True
    have p: "p + 2 * DIGESTLEN \<le> POOLSIZE" using True 1(2,3) by simp
    obtain md' pool' where it: "mix_iter H md pool p = (md', pool')" by force
    have len: "length pool' = POOLSIZE + BLOCKLEN"
      using it p 1(4) by (auto simp: mix_iter_eq split: prod.splits)
    have "length (snd (mix_loop H (n + 1) md' pool' (p + DIGESTLEN))) = POOLSIZE + BLOCKLEN"
      using 1(1)[OF True it[symmetric]] 1(2,3) len by (simp add: algebra_simps)
    then show ?thesis using True it by (subst mix_loop.simps) simp
  next
    case False
    then show ?thesis using 1(4) by (subst mix_loop.simps) simp
  qed
qed
lemma length_xor_digest:
  "DIGESTLEN \<le> length pool \<Longrightarrow> length (xor_digest pool fd) = length pool"
  by (simp add: xor_digest_def)
lemma length_mixblock_hashbuf:
  assumes "length pool = POOLSIZE + BLOCKLEN"
  shows "length (snd (mixblock_hashbuf H md pool)) = POOLSIZE + BLOCKLEN"
proof -
  obtain md' dg where m: "mixblock H md (drop POOLSIZE pool) = (md', dg)" by force
  have "length (memcpy pool POOLSIZE (digest_bytes dg)) = length pool"
    by (rule length_memcpy) (simp add: assms)
  then show ?thesis by (simp add: mixblock_hashbuf_def m assms)
qed

lemma length_mix_buffer:
  assumes "length pool = POOLSIZE + BLOCKLEN"
  shows "length (mix_buffer H fs pool) = POOLSIZE + BLOCKLEN"
proof -
  define p1 where "p1 = memcpy pool POOLSIZE (take DIGESTLEN (drop (POOLSIZE - DIGESTLEN) pool))"
  define p2 where "p2 = memcpy p1 (POOLSIZE + DIGESTLEN) (take (BLOCKLEN - DIGESTLEN) pool)"
  have l1: "length p1 = POOLSIZE + BLOCKLEN"
    unfolding p1_def using assms by (subst length_memcpy) simp_all
  have l2: "length p2 = POOLSIZE + BLOCKLEN"
    unfolding p2_def using assms l1 by (subst length_memcpy) simp_all
  obtain md p3 where mb: "mixblock_hashbuf H (mixblock_init H) p2 = (md, p3)" by force
  have l3: "length p3 = POOLSIZE + BLOCKLEN"
    using length_mixblock_hashbuf[OF l2, of H "mixblock_init H"] mb by simp
  define p4 where "p4 = memcpy p3 0 (take DIGESTLEN (drop POOLSIZE p3))"
  have l4: "length p4 = POOLSIZE + BLOCKLEN"
    unfolding p4_def using l3 by (subst length_memcpy) simp_all
  define p5 where "p5 = (case fs of None \<Rightarrow> p4 | Some fd \<Rightarrow> xor_digest p4 fd)"
  have l5: "length p5 = POOLSIZE + BLOCKLEN"
    unfolding p5_def using l4 by (simp add: length_xor_digest split: option.splits)
  have "mix_buffer H fs pool = snd (mix_loop H 1 md p5 0)"
    unfolding mix_buffer_def Let_def mb[unfolded p2_def p1_def] prod.case p5_def p4_def
    by (rule refl)
  moreover have "length (snd (mix_loop H 1 md p5 0)) = POOLSIZE + BLOCKLEN"
    by (rule length_mix_loop) (use l5 in simp_all)
  ultimately show ?thesis by simp
qed

lemma mix_pool_rnd:
  "pool_is_locked s \<Longrightarrow> mix_pool E RNDPOOL s =
     Inr (s\<lparr>rndpool := Some (mix_buffer (e_hash E)
                         (if failsafe_digest_valid s then Some (failsafe_digest s) else None)
                         (the (rndpool s))),
            failsafe_digest := digest_bytes (hash_buffer (e_hash E) (take POOLSIZE
                 (mix_buffer (e_hash E)
                         (if failsafe_digest_valid s then Some (failsafe_digest s) else None)
                         (the (rndpool s))))),
            failsafe_digest_valid := True\<rparr>)"
  by (simp add: mix_pool_def Let_def)
lemma mix_pool_key:
  "pool_is_locked s \<Longrightarrow> mix_pool E KEYPOOL s =
     Inr (s\<lparr>keypool := Some (mix_buffer (e_hash E) None (the (keypool s)))\<rparr>)"
  by (simp add: mix_pool_def)
lemma acc_frame_refl [simp]: "acc_frame s s"
  by (simp add: acc_frame_def)


lemma acc_frame_trans: "acc_frame s s' \<Longrightarrow> acc_frame s' s'' \<Longrightarrow> acc_frame s s''"
  by (simp add: acc_frame_def)


lemma xor_byte_props:
  "acc_frame s (xor_byte b s)" "pool_writepos (xor_byte b s) = pool_writepos s + 1"
  "addbytes (xor_byte b s) = addbytes s" "naddbytes (xor_byte b s) = naddbytes s"
  "pool_filled (xor_byte b s) = pool_filled s"
  "pool_filled_counter (xor_byte b s) = pool_filled_counter s"
  "rnd_ok s \<Longrightarrow> rnd_ok (xor_byte b s)"
  "just_mixed (xor_byte b s) = just_mixed s" "mixrnd (xor_byte b s) = mixrnd s"
  by (auto simp: xor_byte_def acc_frame_def rnd_ok_def split: option.splits)

lemma credit_filled_props:
  assumes "credit_filled origin c s = (s1, c1)"
  shows "acc_frame s s1" "pool_writepos s1 = pool_writepos s" "rndpool s1 = rndpool s"
    "addbytes s1 = addbytes s" "naddbytes s1 = naddbytes s"
    "failsafe_digest s1 = failsafe_digest s" "failsafe_digest_valid s1 = failsafe_digest_valid s"
    "origin_value origin < origin_value RANDOM_ORIGIN_SLOWPOLL \<Longrightarrow> s1 = s"
    "pool_filled s \<Longrightarrow> s1 = s"
  using assms by (auto simp: credit_filled_def acc_frame_def Let_def split: if_splits)

lemma wrap_pool_props:
  assumes "pool_is_locked s"
  shows "\<exists>s' c'. wrap_pool E origin c l s = Inr (s', c') \<and> acc_frame s s'
           \<and> pool_writepos s' = 0 \<and> addbytes s' = addbytes s \<and> naddbytes s' = naddbytes s
           \<and> (rnd_ok s \<longrightarrow> rnd_ok s')
           \<and> (origin_value origin < origin_value RANDOM_ORIGIN_SLOWPOLL \<longrightarrow>
                pool_filled s' = pool_filled s \<and> pool_filled_counter s' = pool_filled_counter s)
           \<and> (pool_filled s \<longrightarrow> pool_filled s')"
proof -
  obtain s1 c1 where cf: "credit_filled origin c s = (s1, c1)" by force
  note p = credit_filled_props[OF cf]
  have lk: "pool_is_locked (s1\<lparr>pool_writepos := 0\<rparr>)"
    using p(1) assms by (simp add: acc_frame_def)
  have ok: "rnd_ok s \<Longrightarrow> length (the (rndpool s1)) = POOLSIZE + BLOCKLEN"
    using p(3) by (auto simp: rnd_ok_def split: option.splits)
  show ?thesis
    unfolding wrap_pool_def cf prod.case bindf_def mix_pool_rnd[OF lk]
    using p assms ok
    by (auto simp: acc_frame_def rnd_ok_def length_mix_buffer)
qed

lemma add_loop_props:
  assumes "pool_is_locked s"
  shows "\<exists>s'. add_loop E origin bs c s = Inr s' \<and> acc_frame s s'
           \<and> addbytes s' = addbytes s \<and> naddbytes s' = naddbytes s
           \<and> (rnd_ok s \<longrightarrow> rnd_ok s')
           \<and> (pool_writepos s < POOLSIZE \<longrightarrow> pool_writepos s' < POOLSIZE)
           \<and> (origin_value origin < origin_value RANDOM_ORIGIN_SLOWPOLL \<longrightarrow>
                pool_filled s' = pool_filled s \<and> pool_filled_counter s' = pool_filled_counter s)
           \<and> (pool_filled s \<longrightarrow> pool_filled s')"
  using assms
proof (induction bs arbitrary: c s)
  case Nil
  then show ?case by simp
next
  case (Cons b bs)
  let ?s1 = "xor_byte b s"
  note x = xor_byte_props[where s=s and b=b]
  have lk1: "pool_is_locked ?s1" using x(1) Cons.prems by (simp add: acc_frame_def)
  show ?case
  proof (cases "pool_writepos ?s1 \<ge> POOLSIZE")
    case True
    from wrap_pool_props[OF lk1, of E origin "c + 1" "bs = []"] obtain s2 c2 where
      w: "wrap_pool E origin (c + 1) (bs = []) ?s1 = Inr (s2, c2)" "acc_frame ?s1 s2"
         "pool_writepos s2 = 0" "addbytes s2 = addbytes ?s1" "naddbytes s2 = naddbytes ?s1"
         "rnd_ok ?s1 \<longrightarrow> rnd_ok s2"
         "origin_value origin < origin_value RANDOM_ORIGIN_SLOWPOLL \<longrightarrow>
                pool_filled s2 = pool_filled ?s1 \<and> pool_filled_counter s2 = pool_filled_counter ?s1"
         "pool_filled ?s1 \<longrightarrow> pool_filled s2"
      by blast
    have lk2: "pool_is_locked s2" using w(2) lk1 by (simp add: acc_frame_def)
    from Cons.IH[OF lk2, of c2] obtain s' where
      r: "add_loop E origin bs c2 s2 = Inr s'" "acc_frame s2 s'"
         "addbytes s' = addbytes s2" "naddbytes s' = naddbytes s2"
         "rnd_ok s2 \<longrightarrow> rnd_ok s'"
         "pool_writepos s2 < POOLSIZE \<longrightarrow> pool_writepos s' < POOLSIZE"
         "origin_value origin < origin_value RANDOM_ORIGIN_SLOWPOLL \<longrightarrow>
                pool_filled s' = pool_filled s2 \<and> pool_filled_counter s' = pool_filled_counter s2"
         "pool_filled s2 \<longrightarrow> pool_filled s'"
      by blast
    have e: "add_loop E origin (b # bs) c s = Inr s'"
      using True w(1) r(1) by (simp add: Let_def)
    have f: "acc_frame s s'"
      using x(1) w(2) r(2) by (blast intro: acc_frame_trans)
    show ?thesis
      using e f x w r by auto
  next
    case False
    from Cons.IH[OF lk1, of "c + 1"] obtain s' where
      r: "add_loop E origin bs (c + 1) ?s1 = Inr s'" "acc_frame ?s1 s'"
         "addbytes s' = addbytes ?s1" "naddbytes s' = naddbytes ?s1"
         "rnd_ok ?s1 \<longrightarrow> rnd_ok s'"
         "pool_writepos ?s1 < POOLSIZE \<longrightarrow> pool_writepos s' < POOLSIZE"
         "origin_value origin < origin_value RANDOM_ORIGIN_SLOWPOLL \<longrightarrow>
                pool_filled s' = pool_filled ?s1 \<and> pool_filled_counter s' = pool_filled_counter ?s1"
         "pool_filled ?s1 \<longrightarrow> pool_filled s'"
      by blast
    have e: "add_loop E origin (b # bs) c s = Inr s'"
      using False r(1) by (simp add: Let_def)
    have f: "acc_frame s s'"
      using x(1) r(2) by (blast intro: acc_frame_trans)
    show ?thesis
      using e f x r False by auto
  qed
qed

lemma locked_state_simps:
  "rndpool (locked_state sf r) = Some (replicate (POOLSIZE + BLOCKLEN) 0)"
  "keypool (locked_state sf r) = Some (replicate (POOLSIZE + BLOCKLEN) 0)"
  "pool_is_locked (locked_state sf r)" "pool_writepos (locked_state sf r) = 0"
  "pool_readpos (locked_state sf r) = 0" "\<not> pool_filled (locked_state sf r)"
  "pool_filled_counter (locked_state sf r) = 0" "slow_gather_fnc (locked_state sf r)"
  "w_gather (locked_state sf r) = r" "w_seed_file (locked_state sf r) = sf"
  "w_trace (locked_state sf r) = []" "seed_file_name (locked_state sf r) = None"
  "\<not> did_initial_extra_seeding (locked_state sf r)" "pool_balance (locked_state sf r) = 0"
  "my_pid (locked_state sf r) = - 1" "w_clock (locked_state sf r) = 0"
  "\<not> just_mixed (locked_state sf r)" "\<not> fast_gather_fnc (locked_state sf r)"
  by (simp_all add: locked_state_def init_state_def)

lemma acc_step_refl [simp]: "acc_step origin s s"
  by (simp add: acc_step_def)

lemma acc_step_trans:
  assumes "acc_step origin s s'" and "acc_step origin s' s''"
  shows "acc_step origin s s''"
proof -
  have f: "acc_frame s s''"
    using assms acc_frame_trans[of s s' s''] by (simp add: acc_step_def)
  have r: "rnd_ok s \<longrightarrow> rnd_ok s''"
    and w: "pool_writepos s < POOLSIZE \<longrightarrow> pool_writepos s'' < POOLSIZE"
    and p: "pool_filled s \<longrightarrow> pool_filled s''"
    using assms by (simp_all add: acc_step_def)
  have l: "origin_value origin < origin_value RANDOM_ORIGIN_SLOWPOLL \<longrightarrow>
            pool_filled s'' = pool_filled s \<and> pool_filled_counter s'' = pool_filled_counter s"
    using assms by (simp add: acc_step_def)
  show ?thesis
    unfolding acc_step_def using f r w p l by (intro conjI)
qed

lemma acc_step_frame: "acc_step origin s s' \<Longrightarrow> acc_frame s s'"
  by (simp add: acc_step_def)

lemma acc_frame_locked: "acc_frame s s' \<Longrightarrow> pool_is_locked s' = pool_is_locked s"
  by (simp add: acc_frame_def)

lemma add_loop_Inr:
  assumes "add_loop E origin bs c s = Inr s'" "pool_is_locked s"
  shows "acc_step origin s s'" "addbytes s' = addbytes s" "naddbytes s' = naddbytes s"
  using add_loop_props[OF assms(2), of E origin bs c] assms(1)
  by (auto simp: acc_step_def)

lemma add_randomness_ok:
  assumes "pool_is_locked s"
  shows "\<exists>s'. add_randomness E buf origin s = Inr s' \<and> acc_step origin s s'
            \<and> addbytes s' = addbytes s + of_nat (length buf) \<and> naddbytes s' = naddbytes s + 1"
proof -
  let ?s0 = "s\<lparr>addbytes := addbytes s + of_nat (length buf), naddbytes := naddbytes s + 1\<rparr>"
  have lk: "pool_is_locked ?s0" using assms by simp
  from add_loop_props[OF lk, of E origin buf 0] obtain s' where
    r: "add_loop E origin buf 0 ?s0 = Inr s'" by blast
  note p = add_loop_Inr[OF r lk]
  have "acc_step origin s s'"
    using p(1) by (simp add: acc_step_def acc_frame_def rnd_ok_def)
  then show ?thesis
    using r p assms by (simp add: add_randomness_def)
qed

lemma add_randomness_locked:
  "add_randomness E buf origin s = Inr s' \<Longrightarrow> pool_is_locked s"
  by (simp add: add_randomness_def split: if_splits)

lemma add_randomness_Inl:
  "add_randomness E buf origin s = Inl e \<Longrightarrow> e = Assert_pool_is_locked \<and> \<not> pool_is_locked s"
  using add_randomness_ok[of s E buf origin]
  by (cases "pool_is_locked s") (auto simp: add_randomness_def)

lemma add_randomness_Inr:
  assumes "add_randomness E buf origin s = Inr s'"
  shows "acc_step origin s s'" "addbytes s' = addbytes s + of_nat (length buf)"
    "naddbytes s' = naddbytes s + 1"
  using add_randomness_ok[OF add_randomness_locked[OF assms], of E buf origin] assms
  by auto

lemma deliver_Inr:
  "deliver E origin cs s = Inr s' \<Longrightarrow> acc_step origin s s'"
proof (induction cs arbitrary: s)
  case Nil
  then show ?case by simp
next
  case (Cons c cs)
  from Cons.prems obtain s1 where a: "add_randomness E c origin s = Inr s1"
    and d: "deliver E origin cs s1 = Inr s'"
    by (auto split: sum.splits)
  show ?case
    using add_randomness_Inr(1)[OF a] Cons.IH[OF d] by (rule acc_step_trans)
qed

lemma deliver_ok:
  "pool_is_locked s \<Longrightarrow> \<exists>s'. deliver E origin cs s = Inr s'"
proof (induction cs arbitrary: s)
  case Nil
  then show ?case by simp
next
  case (Cons c cs)
  from add_randomness_ok[OF Cons.prems, of E c origin] obtain s1 where
    a: "add_randomness E c origin s = Inr s1" "acc_step origin s s1" by blast
  have "pool_is_locked s1"
    using a(2) Cons.prems by (simp add: acc_step_def acc_frame_def)
  from Cons.IH[OF this] a(1) show ?case by simp
qed

lemma deliver_Inl:
  "deliver E origin cs s = Inl e \<Longrightarrow> e = Assert_pool_is_locked"
proof (induction cs arbitrary: s)
  case Nil
  then show ?case by simp
next
  case (Cons c cs)
  show ?case
  proof (cases "add_randomness E c origin s")
    case (Inl e')
    then show ?thesis using Cons.prems add_randomness_Inl[OF Inl] by simp
  next
    case (Inr s1)
    then show ?thesis using Cons.prems Cons.IH[of s1] by simp
  qed
qed

lemma read_random_source_Inr:
  assumes "read_random_source E origin n level s = Inr s'"
  shows "\<exists>chunks rc rest. w_gather s = (chunks, rc) # rest \<and> 0 \<le> rc \<and> slow_gather_fnc s
           \<and> acc_step origin (s\<lparr>w_trace := w_trace s @ [(origin, n, level)], w_gather := rest\<rparr>) s'"
proof -
  from assms obtain chunks rc rest where g: "w_gather s = (chunks, rc) # rest"
    and sg: "slow_gather_fnc s"
    by (auto simp: read_random_source_def Let_def split: if_splits list.splits)
  from assms g sg have
    d: "deliver E origin chunks (s\<lparr>w_trace := w_trace s @ [(origin, n, level)], w_gather := rest\<rparr>) = Inr s'"
    and rc: "0 \<le> rc"
    by (auto simp: read_random_source_def Let_def bindf_def split: if_splits sum.splits)
  show ?thesis using g rc sg deliver_Inr[OF d] by blast
qed

lemma read_random_source_ok:
  assumes "pool_is_locked s" "slow_gather_fnc s" "w_gather s = (chunks, rc) # rest" "0 \<le> rc"
  shows "\<exists>s'. read_random_source E origin n level s = Inr s'"
proof -
  have "pool_is_locked (s\<lparr>w_trace := w_trace s @ [(origin, n, level)], w_gather := rest\<rparr>)"
    using assms by simp
  from deliver_ok[OF this, of E origin chunks] obtain s' where
    "deliver E origin chunks (s\<lparr>w_trace := w_trace s @ [(origin, n, level)], w_gather := rest\<rparr>) = Inr s'"
    by blast
  then show ?thesis using assms by (simp add: read_random_source_def Let_def)
qed

lemma read_random_source_Inl:
  assumes "read_random_source E origin n level s = Inl e"
  shows "e = Assert_pool_is_locked \<or> e = Fatal_gather_not_initialized \<or> e = Fatal_no_entropy"
proof (cases "slow_gather_fnc s")
  case False
  then show ?thesis using assms by (simp add: read_random_source_def)
next
  case True
  show ?thesis
  proof (cases "w_gather s")
    case Nil
    then show ?thesis using assms True by (simp add: read_random_source_def Let_def)
  next
    case (Cons r rest)
    obtain chunks rc where r: "r = (chunks, rc)" by (cases r)
    let ?s1 = "s\<lparr>w_trace := w_trace s @ [(origin, n, level)], w_gather := rest\<rparr>"
    show ?thesis
    proof (cases "deliver E origin chunks ?s1")
      case (Inl e')
      then have "e = e'" using assms True Cons r by (simp add: read_random_source_def Let_def)
      then show ?thesis using deliver_Inl[OF Inl] by simp
    next
      case (Inr s2)
      then show ?thesis using assms True Cons r
        by (simp add: read_random_source_def Let_def split: if_splits)
    qed
  qed
qed

lemma bindf_eq_Inr: "bindf m f = Inr y \<longleftrightarrow> (\<exists>x. m = Inr x \<and> f x = Inr y)"
  by (cases m) simp_all

lemma bindf_cong_Inr: "(\<And>x. m = Inr x \<Longrightarrow> f x = g x) \<Longrightarrow> bindf m f = bindf m g"
  by (cases m) simp_all

lemma acc_step_low:
  "acc_step origin s s' \<Longrightarrow> origin_value origin < origin_value RANDOM_ORIGIN_SLOWPOLL \<Longrightarrow>
   pool_filled s' = pool_filled s \<and> pool_filled_counter s' = pool_filled_counter s"
  by (simp add: acc_step_def)

lemma acc_step_world:
  assumes "acc_step origin s s'"
  shows "w_trace s' = w_trace s" "w_gather s' = w_gather s" "w_clock s' = w_clock s"
    "pool_is_locked s' = pool_is_locked s" "slow_gather_fnc s' = slow_gather_fnc s"
    "pool_balance s' = pool_balance s" "did_initial_extra_seeding s' = did_initial_extra_seeding s"
    "keypool s' = keypool s" "pool_readpos s' = pool_readpos s" "my_pid s' = my_pid s"
    "allow_seed_file_update s' = allow_seed_file_update s" "seed_file_name s' = seed_file_name s"
    "w_seed_file s' = w_seed_file s" "fast_gather_fnc s' = fast_gather_fnc s"
    "quick_test s' = quick_test s"
  using assms by (simp_all add: acc_step_def acc_frame_def)

lemma test_env_simps:
  "e_jent test_env = False" "e_gather_module test_env" "e_fast_module test_env = False"
  "e_getpid test_env k = 4711" "e_timer_fails test_env k = False"
  "e_fast_gather test_env k = []" "e_timers test_env k = []" "e_hw_poll test_env k = []"
  "e_hash test_env = const_prims" "e_time test_env k = 0" "e_clock test_env k = 0"
  by (simp_all add: test_env_def)

lemma size_t_of_int_0 [simp]: "size_t_of_int 0 = 0"
  by (simp add: size_t_of_int_def)

lemma size_t_sub_0: "len \<le> SIZE_MAX \<Longrightarrow> size_t_sub len 0 = len"
  by (simp add: size_t_sub_def)

lemma size_t_add_0: "n \<le> SIZE_MAX \<Longrightarrow> size_t_add 0 n = n"
  by (simp add: size_t_add_def)

lemma int_of_size_t_small: "n < 2 ^ 31 \<Longrightarrow> int_of_size_t n = int n"
  unfolding int_of_size_t_def
  by (simp add: signed_of_nat signed_take_bit_int_eq_self)

lemma initialize_fresh:
  "initialize test_env (init_state SF_enoent []) = Inr idle_state"
  by (simp add: initialize_def initialize_basics_def lock_pool_def unlock_pool_def Let_def
                init_state_def idle_state_def locked_state_def test_env_simps)

lemma idle_state_simps:
  "rndpool idle_state = Some (replicate (POOLSIZE + BLOCKLEN) 0)"
  "addbytes idle_state = 0" "naddbytes idle_state = 0" "\<not> pool_is_locked idle_state"
  "initialized idle_state" "pool_writepos idle_state = 0" "pool_readpos idle_state = 0"
  by (simp_all add: idle_state_def unlock_pool_def locked_state_def init_state_def)

section \<open>The steps of the extractor\<close>

lemma calm_refl [simp]: "calm s s"
  by (simp add: calm_def)

lemma calm_trans: "calm s s' \<Longrightarrow> calm s' s'' \<Longrightarrow> calm s s''"
  by (simp add: calm_def)

lemma acc_step_calm: "acc_step origin s s' \<Longrightarrow> calm s s'"
  by (simp add: acc_step_def acc_frame_def calm_def)

lemma add_randomness_calm: "add_randomness E buf origin s = Inr s' \<Longrightarrow> calm s s'"
  by (rule acc_step_calm) (rule add_randomness_Inr)

lemma deliver_calm: "deliver E origin cs s = Inr s' \<Longrightarrow> calm s s'"
  by (rule acc_step_calm) (rule deliver_Inr)

lemma read_random_source_calm:
  assumes "read_random_source E origin n level s = Inr s'"
  shows "calm s s'"
proof -
  from read_random_source_Inr[OF assms] obtain rest where
    "acc_step origin (s\<lparr>w_trace := w_trace s @ [(origin, n, level)], w_gather := rest\<rparr>) s'"
    by blast
  from acc_step_calm[OF this] show ?thesis by (simp add: calm_def rnd_ok_def)
qed

lemma mix_pool_rnd_calm: "mix_pool E RNDPOOL s = Inr s' \<Longrightarrow> calm s s'"
  by (auto simp: mix_pool_def calm_def rnd_ok_def Let_def length_mix_buffer
           split: if_splits option.splits)

lemma random_poll_calm: "random_poll E s = Inr s' \<Longrightarrow> calm s s'"
  unfolding random_poll_def
  by (drule read_random_source_calm) (simp add: calm_def rnd_ok_def)

lemma fill_pool_calm: "fill_pool E s = Inr s' \<Longrightarrow> calm s s' \<and> pool_filled s'"
proof (induction E s rule: fill_pool.induct)
  case (1 E s)
  show ?case
  proof (cases "pool_filled s")
    case True
    then show ?thesis using 1(2) by (simp add: fill_pool.simps)
  next
    case False
    with 1(2) obtain s1 where r: "random_poll E s = Inr s1" and f: "fill_pool E s1 = Inr s'"
      by (subst (asm) fill_pool.simps) (auto split: sum.splits)
    from 1(1)[OF False r f] random_poll_calm[OF r] show ?thesis
      by (blast intro: calm_trans)
  qed
qed

lemma do_fast_random_poll_calm: "do_fast_random_poll E s = Inr s' \<Longrightarrow> calm s s'"
  by (auto simp: do_fast_random_poll_def Let_def bindf_eq_Inr calm_def rnd_ok_def
           split: if_splits dest!: deliver_calm)

lemma fork_check_pre_calm: "fork_check_pre E s = Inr (pid, s') \<Longrightarrow> calm s s'"
  by (auto simp: fork_check_pre_def getpid_def Let_def bindf_eq_Inr calm_def rnd_ok_def
           split: if_splits dest!: add_randomness_calm)

lemma seed_file_mix_calm: "seed_file_mix E buffer s = Inr (ok, s') \<Longrightarrow> calm s s'"
  by (auto simp: seed_file_mix_def getpid_def bindf_eq_Inr calm_def rnd_ok_def
           split: if_splits
           dest!: add_randomness_calm read_random_source_calm)

lemma read_seed_file_calm: "read_seed_file E s = Inr (ok, s') \<Longrightarrow> calm s s'"
  by (auto simp: read_seed_file_def calm_def rnd_ok_def
           split: if_splits seed_file.splits option.splits dest!: seed_file_mix_calm)

lemma seed_on_demand_calm: "seed_on_demand E s = Inr s' \<Longrightarrow> calm s s'"
  by (auto simp: seed_on_demand_def bindf_eq_Inr calm_def rnd_ok_def
           split: if_splits dest!: read_seed_file_calm)

lemma extra_poll_calm: "extra_poll E needed s = Inr s' \<Longrightarrow> calm s s'"
  by (auto simp: extra_poll_def bindf_eq_Inr calm_def rnd_ok_def
           dest!: read_random_source_calm)

lemma initial_extra_seeding_calm: "initial_extra_seeding E len level s = Inr s' \<Longrightarrow> calm s s'"
  by (auto simp: initial_extra_seeding_def Let_def bindf_eq_Inr calm_def rnd_ok_def
           split: if_splits dest!: extra_poll_calm)

lemma extra_seeding_calm: "extra_seeding E len level s = Inr s' \<Longrightarrow> calm s s'"
  by (auto simp: extra_seeding_def Let_def bindf_eq_Inr calm_def rnd_ok_def
           split: if_splits dest!: extra_poll_calm)

lemma read_out_shape:
  "\<exists>b' r. read_out n buffer p s =
            (b', p + n, s\<lparr>pool_readpos := r, pool_balance := pool_balance s - int n\<rparr>)
          \<and> length b' = length buffer
          \<and> (pool_readpos s < POOLSIZE \<longrightarrow> r = (pool_readpos s + n) mod POOLSIZE)"
proof (induction n arbitrary: buffer p s)
  case 0
  show ?case by (rule exI[of _ buffer], rule exI[of _ "pool_readpos s"]) simp
next
  case (Suc n)
  let ?s1 = "s\<lparr>pool_readpos := (if pool_readpos s + 1 \<ge> POOLSIZE then 0 else pool_readpos s + 1),
          pool_balance := pool_balance s - 1\<rparr>"
  let ?b1 = "buffer[p := the (keypool s) ! pool_readpos s]"
  from Suc.IH[of ?b1 "p + 1" ?s1] obtain b' r where
    e: "read_out n ?b1 (p + 1) ?s1 =
            (b', p + 1 + n, ?s1\<lparr>pool_readpos := r, pool_balance := pool_balance ?s1 - int n\<rparr>)"
    and l: "length b' = length ?b1"
    and m: "pool_readpos ?s1 < POOLSIZE \<longrightarrow> r = (pool_readpos ?s1 + n) mod POOLSIZE"
    by blast
  have m': "pool_readpos s < POOLSIZE \<longrightarrow> r = (pool_readpos s + Suc n) mod POOLSIZE"
  proof
    assume lt: "pool_readpos s < POOLSIZE"
    show "r = (pool_readpos s + Suc n) mod POOLSIZE"
    proof (cases "pool_readpos s + 1 \<ge> POOLSIZE")
      case True
      then have "pool_readpos s = 599" using lt by simp
      then show ?thesis using m True
        by (simp add: mod_add_left_eq[symmetric, of 600 n 600] del: mod_add_left_eq)
    next
      case False
      then show ?thesis using m lt by simp
    qed
  qed
  show ?case
    by (rule exI[of _ b'], rule exI[of _ r]) (use e l m' in simp)
qed

lemma deliver_bytes_shape:
  "\<exists>b' r bal. deliver_bytes buffer p len s =
       (b', p + len,
        s\<lparr>pool_readpos := r, pool_balance := bal,
          keypool := Some (memcpy (the (keypool s)) 0 (replicate POOLSIZE 0))\<rparr>)
     \<and> length b' = length buffer \<and> 0 \<le> bal
     \<and> (pool_readpos s < POOLSIZE \<longrightarrow> r = (pool_readpos s + len) mod POOLSIZE)"
proof -
  from read_out_shape[of len buffer p s] obtain b' r where
    e: "read_out len buffer p s =
            (b', p + len, s\<lparr>pool_readpos := r, pool_balance := pool_balance s - int len\<rparr>)"
    and l: "length b' = length buffer"
    and m: "pool_readpos s < POOLSIZE \<longrightarrow> r = (pool_readpos s + len) mod POOLSIZE"
    by blast
  show ?thesis
  proof (cases "pool_balance s - int len < 0")
    case True
    show ?thesis
      by (rule exI[of _ b'], rule exI[of _ r], rule exI[of _ 0])
         (use e l m True in \<open>simp add: deliver_bytes_def\<close>)
  next
    case False
    show ?thesis
      by (rule exI[of _ b'], rule exI[of _ r], rule exI[of _ "pool_balance s - int len"])
         (use e l m False in \<open>simp add: deliver_bytes_def\<close>)
  qed
qed

lemma length_word_bytes [simp]: "length (word_bytes n w) = n"
  by (simp add: word_bytes_def)

lemma length_add_value_copy:
  assumes "length kp = POOLSIZE + BLOCKLEN"
  shows "length (add_value_copy kp rp) = POOLSIZE + BLOCKLEN"
proof -
  have "length (concat (map (\<lambda>i. word_bytes 8 (bytes_word (take 8 (drop (8 * i) rp)) + ADD_VALUE))
                            [0..<POOLWORDS])) = POOLSIZE"
    by (simp add: length_concat comp_def sum_list_triv)
  then show ?thesis
    unfolding add_value_copy_def using assms by (subst length_memcpy) simp_all
qed

lemma derive_keypool_Inr:
  assumes "derive_keypool E s = Inr s'"
  shows "pool_is_locked s' = pool_is_locked s" "pool_readpos s' = pool_readpos s"
    "slow_gather_fnc s' = slow_gather_fnc s"
    "pool_writepos s < POOLSIZE \<Longrightarrow> pool_writepos s' < POOLSIZE"
    "rnd_ok s \<Longrightarrow> rnd_ok s'" "pool_filled s \<Longrightarrow> pool_filled s'"
    "\<exists>K. keypool s' = Some (mix_buffer (e_hash E) None K)
          \<and> (key_ok s \<longrightarrow> length K = POOLSIZE + BLOCKLEN)"
proof -
  from assms obtain s1 s2 s3 s4 s5 where
    a1: "do_fast_random_poll E s = Inr s1"
    and a2: "add_randomness E (word_bytes 4 (my_pid s1)) RANDOM_ORIGIN_INIT s1 = Inr s2"
    and a3: "(if \<not> just_mixed s2
            then bindf (mix_pool E RNDPOOL s2) (\<lambda>s'. Inr (s'\<lparr>mixrnd := mixrnd s' + 1\<rparr>))
            else Inr s2) = Inr s3"
    and a4: "mix_pool E RNDPOOL
              (s3\<lparr>keypool := Some (add_value_copy (the (keypool s3)) (the (rndpool s3)))\<rparr>) = Inr s4"
    and a5: "mix_pool E KEYPOOL (s4\<lparr>mixrnd := mixrnd s4 + 1\<rparr>) = Inr s5"
    and e: "s' = s5\<lparr>mixkey := mixkey s5 + 1\<rparr>"
    unfolding derive_keypool_def bindf_eq_Inr by auto
  have c1: "calm s s1" by (rule do_fast_random_poll_calm[OF a1])
  have c2: "calm s1 s2" by (rule add_randomness_calm[OF a2])
  have c3: "calm s2 s3"
    using a3 by (auto simp: bindf_eq_Inr calm_def rnd_ok_def split: if_splits dest!: mix_pool_rnd_calm)
  have c03: "calm s s3" using c1 c2 c3 by (blast intro: calm_trans)
  let ?K = "add_value_copy (the (keypool s3)) (the (rndpool s3))"
  have c4: "calm (s3\<lparr>keypool := Some ?K\<rparr>) s4" by (rule mix_pool_rnd_calm[OF a4])
  have k5: "keypool s5 = Some (mix_buffer (e_hash E) None ?K)"
    and f5: "pool_is_locked s5 = pool_is_locked s4" "pool_readpos s5 = pool_readpos s4"
       "slow_gather_fnc s5 = slow_gather_fnc s4" "pool_writepos s5 = pool_writepos s4"
       "rndpool s5 = rndpool s4" "pool_filled s5 = pool_filled s4"
    using a5 c4 by (auto simp: mix_pool_def calm_def split: if_splits)
  show "pool_is_locked s' = pool_is_locked s" "pool_readpos s' = pool_readpos s"
    "slow_gather_fnc s' = slow_gather_fnc s"
    using e f5 c4 c03 by (simp_all add: calm_def)
  show "pool_writepos s < POOLSIZE \<Longrightarrow> pool_writepos s' < POOLSIZE"
    using e f5 c4 c03 by (simp add: calm_def)
  show "rnd_ok s \<Longrightarrow> rnd_ok s'"
    using e f5 c4 c03 by (simp add: calm_def rnd_ok_def)
  show "pool_filled s \<Longrightarrow> pool_filled s'"
    using e f5 c4 c03 by (simp add: calm_def)
  have "key_ok s \<longrightarrow> length ?K = POOLSIZE + BLOCKLEN"
  proof
    assume "key_ok s"
    then obtain kp where kp: "keypool s = Some kp" "length kp = POOLSIZE + BLOCKLEN"
      by (auto simp: key_ok_def split: option.splits)
    have "keypool s3 = keypool s" using c03 by (simp add: calm_def)
    then have "the (keypool s3) = kp" using kp by simp
    then show "length ?K = POOLSIZE + BLOCKLEN"
      using length_add_value_copy[OF kp(2)] by simp
  qed
  then show "\<exists>K. keypool s' = Some (mix_buffer (e_hash E) None K)
          \<and> (key_ok s \<longrightarrow> length K = POOLSIZE + BLOCKLEN)"
    using e k5 by auto
qed

lemma take_memset:
  "take POOLSIZE (memcpy kp 0 (replicate POOLSIZE 0)) = replicate POOLSIZE 0"
  by (simp add: memcpy_def)

lemma read_pool_once_decompose:
  assumes "read_pool_once E buffer p len level s = Inr (again, b', p', s')"
  shows "\<exists>pid s1 s2 s3 s4 s5 s6.
      fork_check_pre E s = Inr (pid, s1) \<and> pool_is_locked s1 \<and> len \<le> POOLSIZE
    \<and> seed_on_demand E s1 = Inr s2 \<and> initial_extra_seeding E len level s2 = Inr s3
    \<and> extra_seeding E len level s3 = Inr s4 \<and> fill_pool E s4 = Inr s5
    \<and> derive_keypool E s5 = Inr s6
    \<and> (case deliver_bytes buffer p len s6 of
              (buffer', p', s7) \<Rightarrow>
                (case getpid E s7 of
                   (pid', s8) \<Rightarrow>
                     (if pid' \<noteq> pid
                      then (case getpid E s8 of
                              (x, s9) \<Rightarrow>
                                bindf (add_randomness E (word_bytes 4 x) RANDOM_ORIGIN_INIT s9)
                                  (\<lambda>s10. Inr (True, buffer', p',
                                                s10\<lparr>just_mixed := False, my_pid := x\<rparr>)))
                      else Inr (False, buffer', p', s8)))) = Inr (again, b', p', s')"
  using assms unfolding read_pool_once_def by (auto simp: bindf_eq_Inr split: if_splits)

lemma read_pool_once_Inr:
  assumes "read_pool_once E buffer p len level s = Inr (again, b', p', s')"
  shows "len \<le> POOLSIZE" and "pool_is_locked s" and "pool_is_locked s'"
    and "cursor_inv s \<Longrightarrow> cursor_inv s'"
    and "\<exists>K. keypool s' = Some (memcpy (mix_buffer (e_hash E) None K) 0 (replicate POOLSIZE 0))
              \<and> (key_ok s \<longrightarrow> length K = POOLSIZE + BLOCKLEN)"
    and "length b' = length buffer" and "p' = p + len"
    and "rnd_ok s \<Longrightarrow> rnd_ok s'" and "slow_gather_fnc s' = slow_gather_fnc s"
    and "pool_filled s'" and "0 \<le> pool_balance s'"
    and "pool_readpos s < POOLSIZE \<Longrightarrow> pool_readpos s' = (pool_readpos s + len) mod POOLSIZE"
proof -
  from read_pool_once_decompose[OF assms] obtain pid s1 s2 s3 s4 s5 s6 where
    f1: "fork_check_pre E s = Inr (pid, s1)" and lk: "pool_is_locked s1" and le: "len \<le> POOLSIZE"
    and f2: "seed_on_demand E s1 = Inr s2" and f3: "initial_extra_seeding E len level s2 = Inr s3"
    and f4: "extra_seeding E len level s3 = Inr s4" and f5: "fill_pool E s4 = Inr s5"
    and f6: "derive_keypool E s5 = Inr s6"
    and f7: "(case deliver_bytes buffer p len s6 of
              (buffer', p', s7) \<Rightarrow>
                (case getpid E s7 of
                   (pid', s8) \<Rightarrow>
                     (if pid' \<noteq> pid
                      then (case getpid E s8 of
                              (x, s9) \<Rightarrow>
                                bindf (add_randomness E (word_bytes 4 x) RANDOM_ORIGIN_INIT s9)
                                  (\<lambda>s10. Inr (True, buffer', p',
                                                s10\<lparr>just_mixed := False, my_pid := x\<rparr>)))
                      else Inr (False, buffer', p', s8)))) = Inr (again, b', p', s')"
    by blast
  have c5: "calm s s5" and fl: "pool_filled s5"
    using fork_check_pre_calm[OF f1] seed_on_demand_calm[OF f2] initial_extra_seeding_calm[OF f3]
      extra_seeding_calm[OF f4] fill_pool_calm[OF f5]
    by (blast intro: calm_trans)+
  note d = derive_keypool_Inr[OF f6]
  from d(7) obtain K where K: "keypool s6 = Some (mix_buffer (e_hash E) None K)"
    and Kl: "key_ok s5 \<longrightarrow> length K = POOLSIZE + BLOCKLEN" by blast
  from deliver_bytes_shape[of buffer p len s6] obtain bb r bal where
    db: "deliver_bytes buffer p len s6 =
       (bb, p + len,
        s6\<lparr>pool_readpos := r, pool_balance := bal,
          keypool := Some (memcpy (the (keypool s6)) 0 (replicate POOLSIZE 0))\<rparr>)"
    and bl: "length bb = length buffer" and b0: "0 \<le> bal"
    and rr: "pool_readpos s6 < POOLSIZE \<longrightarrow> r = (pool_readpos s6 + len) mod POOLSIZE"
    by blast
  let ?s7 = "s6\<lparr>pool_readpos := r, pool_balance := bal,
          keypool := Some (memcpy (the (keypool s6)) 0 (replicate POOLSIZE 0))\<rparr>"
  have post: "\<exists>s8. calm (?s7\<lparr>w_clock := w_clock ?s7 + 1\<rparr>) s8 \<and> pool_balance s8 = bal
          \<and> (s' = s8 \<or> (\<exists>x. s' = s8\<lparr>just_mixed := False, my_pid := x\<rparr>))
          \<and> b' = bb \<and> p' = p + len"
  proof (cases "e_getpid E (w_clock ?s7) \<noteq> pid")
    case True
    with f7 obtain s10 where
      a: "add_randomness E (word_bytes 4 (e_getpid E (w_clock ?s7 + 1))) RANDOM_ORIGIN_INIT
             (?s7\<lparr>w_clock := w_clock ?s7 + 1 + 1\<rparr>) = Inr s10"
      and e: "s' = s10\<lparr>just_mixed := False, my_pid := e_getpid E (w_clock ?s7 + 1)\<rparr>"
         "b' = bb" "p' = p + len"
      unfolding db prod.case getpid_def by (auto simp: bindf_eq_Inr)
    note st = add_randomness_Inr(1)[OF a]
    have "calm (?s7\<lparr>w_clock := w_clock ?s7 + 1\<rparr>) s10"
      using acc_step_calm[OF st] by (simp add: calm_def rnd_ok_def)
    moreover have "pool_balance s10 = bal" using acc_step_world(6)[OF st] by simp
    ultimately show ?thesis using e by blast
  next
    case False
    with f7 have "s' = ?s7\<lparr>w_clock := w_clock ?s7 + 1\<rparr>" "b' = bb" "p' = p + len"
      unfolding db prod.case getpid_def by auto
    then show ?thesis by (intro exI[of _ "?s7\<lparr>w_clock := w_clock ?s7 + 1\<rparr>"]) simp
  qed
  then obtain s8 where c8: "calm (?s7\<lparr>w_clock := w_clock ?s7 + 1\<rparr>) s8"
    and bal8: "pool_balance s8 = bal"
    and e8: "s' = s8 \<or> (\<exists>x. s' = s8\<lparr>just_mixed := False, my_pid := x\<rparr>)"
    and eb: "b' = bb" "p' = p + len"
    by blast
  have l5: "pool_is_locked s5" using c5 lk fork_check_pre_calm[OF f1] by (simp add: calm_def)
  show "len \<le> POOLSIZE" by (rule le)
  show "pool_is_locked s" using lk fork_check_pre_calm[OF f1] by (simp add: calm_def)
  show "pool_is_locked s'" using e8 c8 d(1) l5 by (auto simp: calm_def)
  show "length b' = length buffer" using eb bl by simp
  show "p' = p + len" by (rule eb)
  show "slow_gather_fnc s' = slow_gather_fnc s" using e8 c8 d(3) c5 by (auto simp: calm_def)
  show "pool_filled s'" using e8 c8 d(6)[OF fl] by (auto simp: calm_def)
  show "0 \<le> pool_balance s'" using e8 bal8 b0 by auto
  show "rnd_ok s \<Longrightarrow> rnd_ok s'"
  proof -
    assume "rnd_ok s"
    then have "rnd_ok s6" using c5 d(5) by (simp add: calm_def)
    then have "rnd_ok (?s7\<lparr>w_clock := w_clock ?s7 + 1\<rparr>)" by (simp add: rnd_ok_def)
    then have "rnd_ok s8" using c8 by (simp add: calm_def)
    then show "rnd_ok s'" using e8 by (auto simp: rnd_ok_def)
  qed
  show "pool_readpos s < POOLSIZE \<Longrightarrow> pool_readpos s' = (pool_readpos s + len) mod POOLSIZE"
  proof -
    assume "pool_readpos s < POOLSIZE"
    moreover have "pool_readpos s6 = pool_readpos s" using c5 d(2) by (simp add: calm_def)
    ultimately have "r = (pool_readpos s + len) mod POOLSIZE" using rr by simp
    moreover have "pool_readpos s8 = r" using c8 by (simp add: calm_def)
    ultimately show ?thesis using e8 by auto
  qed
  show "cursor_inv s \<Longrightarrow> cursor_inv s'"
  proof -
    assume ci: "cursor_inv s"
    then have w6: "pool_writepos s6 < POOLSIZE" using c5 d(4) by (simp add: calm_def cursor_inv_def)
    have "pool_readpos s6 = pool_readpos s" using c5 d(2) by (simp add: calm_def)
    then have "r < POOLSIZE" using rr ci by (simp add: cursor_inv_def)
    then have "cursor_inv s8" using c8 w6 by (simp add: calm_def cursor_inv_def)
    then show "cursor_inv s'" using e8 by (auto simp: cursor_inv_def)
  qed
  show "\<exists>K. keypool s' = Some (memcpy (mix_buffer (e_hash E) None K) 0 (replicate POOLSIZE 0))
              \<and> (key_ok s \<longrightarrow> length K = POOLSIZE + BLOCKLEN)"
  proof -
    have "keypool s8 = Some (memcpy (mix_buffer (e_hash E) None K) 0 (replicate POOLSIZE 0))"
      using c8 K by (simp add: calm_def)
    then have "keypool s' = Some (memcpy (mix_buffer (e_hash E) None K) 0 (replicate POOLSIZE 0))"
      using e8 by auto
    moreover have "key_ok s \<longrightarrow> length K = POOLSIZE + BLOCKLEN"
      using Kl c5 by (simp add: calm_def key_ok_def)
    ultimately show ?thesis by blast
  qed
qed

lemma fork_check_pre_ok:
  assumes "pool_is_locked s"
  shows "\<exists>s1. fork_check_pre E s = Inr (e_getpid E (w_clock s), s1) \<and> pool_is_locked s1
            \<and> w_clock s1 = w_clock s + 1"
proof -
  let ?pid = "e_getpid E (w_clock s)"
  show ?thesis
  proof (cases "my_pid s = - 1 \<or> my_pid s = ?pid")
    case True
    then have "fork_check_pre E s =
        Inr (?pid, if my_pid s = - 1 then s\<lparr>w_clock := w_clock s + 1, my_pid := ?pid\<rparr>
                   else s\<lparr>w_clock := w_clock s + 1\<rparr>)"
      by (auto simp: fork_check_pre_def getpid_def Let_def)
    then show ?thesis using assms by auto
  next
    case False
    let ?s2 = "s\<lparr>w_clock := w_clock s + 1, my_pid := ?pid\<rparr>"
    have lk: "pool_is_locked ?s2" using assms by simp
    from add_randomness_ok[OF lk, of E "word_bytes 4 ?pid" RANDOM_ORIGIN_INIT] obtain s3 where
      a: "add_randomness E (word_bytes 4 ?pid) RANDOM_ORIGIN_INIT ?s2 = Inr s3"
      and st: "acc_step RANDOM_ORIGIN_INIT ?s2 s3"
      by blast
    have "fork_check_pre E s = Inr (?pid, s3\<lparr>just_mixed := False\<rparr>)"
      using False a by (simp add: fork_check_pre_def getpid_def Let_def)
    moreover have "pool_is_locked s3" "w_clock s3 = w_clock s + 1"
      using acc_step_world(3,4)[OF st] assms by simp_all
    ultimately show ?thesis by simp
  qed
qed

lemma read_pool_once_oversize:
  assumes "pool_is_locked s" and "len > POOLSIZE"
  shows "read_pool_once E buffer p len level s = Inl Log_bug_too_many_random_bits"
proof -
  from fork_check_pre_ok[OF assms(1), of E] obtain s1 where
    "fork_check_pre E s = Inr (e_getpid E (w_clock s), s1)" "pool_is_locked s1" by blast
  then show ?thesis using assms(2) by (simp add: read_pool_once_def)
qed

lemma read_pool_retry_eq:
  "read_pool_retry E buffer p len level s =
     (case read_pool_once E buffer p len level s of
        Inl e \<Rightarrow> Inl e
      | Inr (again, buffer', p', s') \<Rightarrow>
          if again then Inl Log_bug_too_many_random_bits else Inr (buffer', s'))"
proof (cases "read_pool_once E buffer p len level s")
  case (Inl e)
  then show ?thesis by (subst read_pool_retry.simps) simp
next
  case (Inr r)
  obtain again b' p' s' where r: "r = (again, b', p', s')" by (cases r)
  show ?thesis
  proof (cases again)
    case True
    have lk: "pool_is_locked s'" using read_pool_once_Inr(3)[OF Inr[unfolded r]] .
    have "read_pool_retry E b' p' SIZE_MAX level s' = Inl Log_bug_too_many_random_bits"
      by (subst read_pool_retry.simps) (simp add: read_pool_once_oversize[OF lk])
    then show ?thesis using Inr r True by (subst read_pool_retry.simps) simp
  next
    case False
    then show ?thesis using Inr r by (subst read_pool_retry.simps) simp
  qed
qed

lemma read_pool_Inr:
  assumes "read_pool E buffer p len level s = Inr (b', s')"
  shows "\<exists>p'. read_pool_once E buffer p len level s = Inr (False, b', p', s')"
  using assms
  by (auto simp: read_pool_def read_pool_retry_eq split: if_splits sum.splits)


lemma bindf_eq_Inl: "bindf m f = Inl e \<longleftrightarrow> (m = Inl e \<or> (\<exists>x. m = Inr x \<and> f x = Inl e))"
  by (cases m) simp_all

lemma mix_pool_Inl: "mix_pool E w s = Inl e \<Longrightarrow> e = Assert_pool_is_locked"
  by (auto simp: mix_pool_def Let_def split: if_splits pool_id.splits)

lemma random_poll_Inl:
  "random_poll E s = Inl e \<Longrightarrow>
     e = Assert_pool_is_locked \<or> e = Fatal_gather_not_initialized \<or> e = Fatal_no_entropy"
  unfolding random_poll_def by (rule read_random_source_Inl)

lemma fill_pool_Inl:
  "fill_pool E s = Inl e \<Longrightarrow>
     e = Assert_pool_is_locked \<or> e = Fatal_gather_not_initialized \<or> e = Fatal_no_entropy"
proof (induction E s rule: fill_pool.induct)
  case (1 E s)
  show ?case
  proof (cases "pool_filled s")
    case True
    then show ?thesis using 1(2) by (simp add: fill_pool.simps)
  next
    case False
    show ?thesis
    proof (cases "random_poll E s")
      case (Inl e')
      then have "e = e'" using 1(2) False by (subst (asm) fill_pool.simps) simp
      then show ?thesis using random_poll_Inl[OF Inl] by simp
    next
      case (Inr s1)
      then have "fill_pool E s1 = Inl e" using 1(2) False by (subst (asm) fill_pool.simps) simp
      from 1(1)[OF False Inr this] show ?thesis .
    qed
  qed
qed

lemma do_fast_random_poll_Inl:
  "do_fast_random_poll E s = Inl e \<Longrightarrow> e = Assert_pool_is_locked \<or> e = BUG_timer"
  by (auto simp: do_fast_random_poll_def Let_def bindf_eq_Inl split: if_splits dest!: deliver_Inl)

lemma seed_file_mix_Inl:
  "seed_file_mix E buffer s = Inl e \<Longrightarrow>
     e = Assert_pool_is_locked \<or> e = Fatal_gather_not_initialized \<or> e = Fatal_no_entropy"
  by (auto simp: seed_file_mix_def getpid_def bindf_eq_Inl split: if_splits
           dest!: add_randomness_Inl read_random_source_Inl)

lemma seed_on_demand_Inl:
  "seed_on_demand E s = Inl e \<Longrightarrow> e \<noteq> BUG_initial_seeding"
  by (auto simp: seed_on_demand_def read_seed_file_def bindf_eq_Inl
           split: if_splits seed_file.splits option.splits dest!: seed_file_mix_Inl)

lemma extra_poll_Inl:
  "extra_poll E needed s = Inl e \<Longrightarrow> e \<noteq> BUG_initial_seeding"
  by (auto simp: extra_poll_def bindf_eq_Inl dest!: read_random_source_Inl)

lemma initial_extra_seeding_Inl:
  assumes "initial_extra_seeding E len level s = Inl e" and "len \<le> POOLSIZE"
  shows "e \<noteq> BUG_initial_seeding"
proof -
  have n: "size_t_sub len 0 = len"
    using assms(2) by (simp add: size_t_sub_0)
  show ?thesis
    using assms
    by (auto simp: initial_extra_seeding_def Let_def n bindf_eq_Inl split: if_splits
             dest!: extra_poll_Inl)
qed

lemma extra_seeding_Inl:
  "extra_seeding E len level s = Inl e \<Longrightarrow> e \<noteq> BUG_initial_seeding"
  by (auto simp: extra_seeding_def Let_def split: if_splits dest!: extra_poll_Inl)

lemma derive_keypool_Inl:
  "derive_keypool E s = Inl e \<Longrightarrow> e \<noteq> BUG_initial_seeding"
  by (auto simp: derive_keypool_def bindf_eq_Inl split: if_splits
           dest!: do_fast_random_poll_Inl add_randomness_Inl mix_pool_Inl)

lemma fork_check_pre_Inl:
  "fork_check_pre E s = Inl e \<Longrightarrow> e = Assert_pool_is_locked"
  by (auto simp: fork_check_pre_def getpid_def Let_def bindf_eq_Inl split: if_splits
           dest!: add_randomness_Inl)

lemma fork_check_post_Inl:
  assumes "(case deliver_bytes buffer p len s6 of
              (buffer', p', s7) \<Rightarrow>
                (case getpid E s7 of
                   (pid', s8) \<Rightarrow>
                     (if pid' \<noteq> pid
                      then (case getpid E s8 of
                              (x, s9) \<Rightarrow>
                                bindf (add_randomness E (word_bytes 4 x) RANDOM_ORIGIN_INIT s9)
                                  (\<lambda>s10. Inr (True, buffer', p',
                                                s10\<lparr>just_mixed := False, my_pid := x\<rparr>)))
                      else Inr (False, buffer', p', s8)))) = Inl e"
  shows "e = Assert_pool_is_locked"
proof -
  obtain b' p' s7 where d: "deliver_bytes buffer p len s6 = (b', p', s7)"
    by (cases "deliver_bytes buffer p len s6")
  show ?thesis
    using assms unfolding d prod.case getpid_def
    by (auto simp: bindf_eq_Inl split: if_splits dest!: add_randomness_Inl)
qed

lemma read_pool_once_Inl:
  assumes "read_pool_once E buffer p len level s = Inl e"
  shows "e \<noteq> BUG_initial_seeding"
proof (cases "fork_check_pre E s")
  case (Inl e')
  then have "e = e'" using assms by (simp add: read_pool_once_def)
  then show ?thesis using fork_check_pre_Inl[OF Inl] by simp
next
  case (Inr r)
  obtain pid s1 where r: "r = (pid, s1)" by (cases r)
  show ?thesis
  proof (cases "\<not> pool_is_locked s1 \<or> len > POOLSIZE")
    case True
    then show ?thesis using assms Inr r by (auto simp: read_pool_once_def split: if_splits)
  next
    case False
    then have le: "len \<le> POOLSIZE" by simp
    from assms Inr r False have
      "bindf (seed_on_demand E s1) (\<lambda>s2.
         bindf (initial_extra_seeding E len level s2) (\<lambda>s3.
         bindf (extra_seeding E len level s3) (\<lambda>s4.
         bindf (fill_pool E s4) (\<lambda>s5.
         bindf (derive_keypool E s5) (\<lambda>s6.
           (case deliver_bytes buffer p len s6 of
              (buffer', p', s7) \<Rightarrow>
                (case getpid E s7 of
                   (pid', s8) \<Rightarrow>
                     (if pid' \<noteq> pid
                      then (case getpid E s8 of
                              (x, s9) \<Rightarrow>
                                bindf (add_randomness E (word_bytes 4 x) RANDOM_ORIGIN_INIT s9)
                                  (\<lambda>s10. Inr (True, buffer', p',
                                                s10\<lparr>just_mixed := False, my_pid := x\<rparr>)))
                      else Inr (False, buffer', p', s8))))))))) = Inl e"
      by (simp add: read_pool_once_def)
    then show ?thesis
      using le
      by (auto simp: bindf_eq_Inl
               dest!: seed_on_demand_Inl initial_extra_seeding_Inl extra_seeding_Inl fill_pool_Inl
                      derive_keypool_Inl fork_check_post_Inl)
  qed
qed

lemma extra_requests_append:
  "extra_requests (a @ b) = extra_requests a @ extra_requests b"
  by (simp add: extra_requests_def)

lemma quiet_iff:
  "quiet s s' \<longleftrightarrow>
     (pool_balance s' = pool_balance s
      \<and> did_initial_extra_seeding s' = did_initial_extra_seeding s
      \<and> (\<exists>t. w_trace s' = w_trace s @ t \<and> extra_requests t = []))"
proof
  assume q: "quiet s s'"
  from q have t: "take (length (w_trace s)) (w_trace s') = w_trace s"
    by (simp add: quiet_def)
  have "w_trace s' = w_trace s @ drop (length (w_trace s)) (w_trace s')"
    using append_take_drop_id[of "length (w_trace s)" "w_trace s'"] unfolding t by simp
  then show "pool_balance s' = pool_balance s
      \<and> did_initial_extra_seeding s' = did_initial_extra_seeding s
      \<and> (\<exists>t. w_trace s' = w_trace s @ t \<and> extra_requests t = [])"
    using q unfolding quiet_def by blast
next
  assume "pool_balance s' = pool_balance s
      \<and> did_initial_extra_seeding s' = did_initial_extra_seeding s
      \<and> (\<exists>t. w_trace s' = w_trace s @ t \<and> extra_requests t = [])"
  then show "quiet s s'" by (auto simp: quiet_def)
qed

lemma quiet_refl: "quiet s s"
  by (simp add: quiet_def extra_requests_def)

lemma quiet_trans: "quiet s s' \<Longrightarrow> quiet s' s'' \<Longrightarrow> quiet s s''"
  unfolding quiet_iff by (auto simp: extra_requests_append)

lemma acc_step_quiet: "acc_step origin s s' \<Longrightarrow> quiet s s'"
  unfolding quiet_iff using acc_step_world(1,6,7)[of origin s s']
  by (simp add: extra_requests_def)

lemma add_randomness_quiet: "add_randomness E buf origin s = Inr s' \<Longrightarrow> quiet s s'"
  by (rule acc_step_quiet) (rule add_randomness_Inr)

lemma deliver_quiet: "deliver E origin cs s = Inr s' \<Longrightarrow> quiet s s'"
  by (rule acc_step_quiet) (rule deliver_Inr)

lemma read_random_source_trace:
  assumes "read_random_source E origin n level s = Inr s'"
  shows "w_trace s' = w_trace s @ [(origin, n, level)]" "pool_balance s' = pool_balance s"
    "did_initial_extra_seeding s' = did_initial_extra_seeding s"
proof -
  from read_random_source_Inr[OF assms] obtain rest where
    a: "acc_step origin (s\<lparr>w_trace := w_trace s @ [(origin, n, level)], w_gather := rest\<rparr>) s'"
    by blast
  show "w_trace s' = w_trace s @ [(origin, n, level)]" "pool_balance s' = pool_balance s"
    "did_initial_extra_seeding s' = did_initial_extra_seeding s"
    using acc_step_world(1,6,7)[OF a] by simp_all
qed

lemma read_random_source_quiet:
  assumes "read_random_source E origin n level s = Inr s'" and "origin \<noteq> RANDOM_ORIGIN_EXTRAPOLL"
  shows "quiet s s'"
  unfolding quiet_iff using read_random_source_trace[OF assms(1)] assms(2)
  by (simp add: extra_requests_def)

lemma read_random_source_init_quiet:
  "read_random_source E RANDOM_ORIGIN_INIT n level s = Inr s' \<Longrightarrow> quiet s s'"
  by (erule read_random_source_quiet) simp

lemma mix_pool_quiet: "mix_pool E w s = Inr s' \<Longrightarrow> quiet s s'"
  by (cases w) (auto simp: mix_pool_def Let_def quiet_def extra_requests_def split: if_splits)

lemma random_poll_quiet: "random_poll E s = Inr s' \<Longrightarrow> quiet s s'"
  unfolding random_poll_def
  by (drule read_random_source_quiet) (simp_all add: quiet_def)

lemma fill_pool_quiet: "fill_pool E s = Inr s' \<Longrightarrow> quiet s s'"
proof (induction E s rule: fill_pool.induct)
  case (1 E s)
  show ?case
  proof (cases "pool_filled s")
    case True
    then show ?thesis using 1(2) by (simp add: fill_pool.simps quiet_refl)
  next
    case False
    with 1(2) obtain s1 where r: "random_poll E s = Inr s1" and f: "fill_pool E s1 = Inr s'"
      by (subst (asm) fill_pool.simps) (auto split: sum.splits)
    from 1(1)[OF False r f] random_poll_quiet[OF r] show ?thesis
      by (blast intro: quiet_trans)
  qed
qed

lemma do_fast_random_poll_quiet: "do_fast_random_poll E s = Inr s' \<Longrightarrow> quiet s s'"
  by (auto simp: do_fast_random_poll_def Let_def bindf_eq_Inr quiet_iff extra_requests_append
           split: if_splits dest!: deliver_quiet)

lemma fork_check_pre_quiet: "fork_check_pre E s = Inr (pid, s') \<Longrightarrow> quiet s s'"
  by (auto simp: fork_check_pre_def getpid_def Let_def bindf_eq_Inr quiet_iff extra_requests_append
           extra_requests_def
           split: if_splits dest!: add_randomness_quiet)

lemma seed_file_mix_quiet: "seed_file_mix E buffer s = Inr (ok, s') \<Longrightarrow> quiet s s'"
  by (auto simp: seed_file_mix_def getpid_def bindf_eq_Inr quiet_iff extra_requests_append
           split: if_splits
           dest!: add_randomness_quiet read_random_source_init_quiet)

lemma read_seed_file_quiet: "read_seed_file E s = Inr (ok, s') \<Longrightarrow> quiet s s'"
  by (auto simp: read_seed_file_def quiet_refl
           split: if_splits seed_file.splits option.splits dest!: seed_file_mix_quiet)
     (simp_all add: quiet_def extra_requests_def)

lemma seed_on_demand_quiet: "seed_on_demand E s = Inr s' \<Longrightarrow> quiet s s'"
  by (auto simp: seed_on_demand_def bindf_eq_Inr quiet_refl
           split: if_splits dest!: read_seed_file_quiet)
     (simp_all add: quiet_def)

lemma derive_keypool_quiet:
  assumes "derive_keypool E s = Inr s'"
  shows "quiet s s'"
proof -
  from assms obtain s1 s2 s3 s4 s5 where
    a1: "do_fast_random_poll E s = Inr s1"
    and a2: "add_randomness E (word_bytes 4 (my_pid s1)) RANDOM_ORIGIN_INIT s1 = Inr s2"
    and a3: "(if \<not> just_mixed s2
            then bindf (mix_pool E RNDPOOL s2) (\<lambda>s'. Inr (s'\<lparr>mixrnd := mixrnd s' + 1\<rparr>))
            else Inr s2) = Inr s3"
    and a4: "mix_pool E RNDPOOL
              (s3\<lparr>keypool := Some (add_value_copy (the (keypool s3)) (the (rndpool s3)))\<rparr>) = Inr s4"
    and a5: "mix_pool E KEYPOOL (s4\<lparr>mixrnd := mixrnd s4 + 1\<rparr>) = Inr s5"
    and e: "s' = s5\<lparr>mixkey := mixkey s5 + 1\<rparr>"
    unfolding derive_keypool_def bindf_eq_Inr by auto
  have q1: "quiet s s1" by (rule do_fast_random_poll_quiet[OF a1])
  have q2: "quiet s1 s2" by (rule add_randomness_quiet[OF a2])
  have q3: "quiet s2 s3"
    using a3 by (auto simp: bindf_eq_Inr quiet_refl split: if_splits dest!: mix_pool_quiet)
               (simp add: quiet_def)
  have q4: "quiet s3 s4" using mix_pool_quiet[OF a4] by (simp add: quiet_def)
  have q5: "quiet s4 s'" using mix_pool_quiet[OF a5] e by (simp add: quiet_def)
  show ?thesis using q1 q2 q3 q4 q5 by (blast intro: quiet_trans)
qed

lemma deliver_bytes_balance:
  "\<exists>b' s1. deliver_bytes buffer p len s = (b', p + len, s1)
      \<and> pool_balance s1 = (if pool_balance s - int len < 0 then 0 else pool_balance s - int len)
      \<and> w_trace s1 = w_trace s \<and> did_initial_extra_seeding s1 = did_initial_extra_seeding s"
proof -
  from read_out_shape[of len buffer p s] obtain b' r where
    e: "read_out len buffer p s =
            (b', p + len, s\<lparr>pool_readpos := r, pool_balance := pool_balance s - int len\<rparr>)"
    by blast
  show ?thesis by (simp add: deliver_bytes_def e Let_def)
qed

lemma size_t_of_int_nat: "n \<le> SIZE_MAX \<Longrightarrow> size_t_of_int (int n) = n"
  by (simp add: size_t_of_int_def)

lemma extra_seeding_skip:
  assumes "len \<le> SIZE_MAX" and "pool_balance s = int (max len 16)"
  shows "extra_seeding E len level s = Inr s"
proof -
  have "max len 16 \<le> SIZE_MAX" using assms(1) by simp
  then have "size_t_of_int (pool_balance s) = max len 16"
    unfolding assms(2) by (rule size_t_of_int_nat)
  then show ?thesis by (simp add: extra_seeding_def)
qed


section \<open>The accumulator\<close>

lemma length_xor_at [simp]: "length (xor_at pool w bs) = length pool"
  by (induction bs arbitrary: pool w) simp_all

lemma xor_at_nth:
  "i < length pool \<Longrightarrow>
   xor_at pool w bs ! i = (if w \<le> i \<and> i < w + length bs then pool ! i XOR bs ! (i - w) else pool ! i)"
proof (induction bs arbitrary: pool w)
  case Nil
  then show ?case by auto
next
  case (Cons b bs)
  show ?case
  proof (cases "i = w")
    case True
    then show ?thesis using Cons by simp
  next
    case False
    then show ?thesis using Cons by (auto simp: nth_Cons')
  qed
qed

lemma add_loop_nowrap:
  "rndpool s = Some rp \<Longrightarrow> pool_writepos s + length bs < POOLSIZE \<Longrightarrow>
   add_loop E origin bs c s =
     Inr (s\<lparr>rndpool := Some (xor_at rp (pool_writepos s) bs),
            pool_writepos := pool_writepos s + length bs\<rparr>)"
proof (induction bs arbitrary: s rp c)
  case Nil
  then show ?case by simp
next
  case (Cons b bs)
  let ?s1 = "xor_byte b s"
  have r1: "rndpool ?s1 = Some (rp[pool_writepos s := rp ! pool_writepos s XOR b])"
    and w1: "pool_writepos ?s1 = pool_writepos s + 1"
    using Cons.prems by (simp_all add: xor_byte_def)
  have "add_loop E origin bs (c + 1) ?s1 =
     Inr (?s1\<lparr>rndpool := Some (xor_at (rp[pool_writepos s := rp ! pool_writepos s XOR b])
                               (pool_writepos ?s1) bs),
            pool_writepos := pool_writepos ?s1 + length bs\<rparr>)"
    by (rule Cons.IH[OF r1]) (use Cons.prems w1 in simp)
  moreover have "add_loop E origin (b # bs) c s = add_loop E origin bs (c + 1) ?s1"
    using Cons.prems w1 by (simp add: Let_def)
  ultimately show ?case
    using w1 by (simp add: xor_byte_def)
qed

lemma add_loop_wrap:
  "rndpool s = Some rp \<Longrightarrow> pool_writepos s < POOLSIZE \<Longrightarrow>
   POOLSIZE \<le> pool_writepos s + length bs \<Longrightarrow>
   add_loop E origin bs c s =
     (case wrap_pool E origin (c + (POOLSIZE - pool_writepos s))
             (length bs = POOLSIZE - pool_writepos s)
             (s\<lparr>rndpool := Some (xor_at rp (pool_writepos s) (take (POOLSIZE - pool_writepos s) bs)),
                pool_writepos := POOLSIZE\<rparr>) of
        Inl e \<Rightarrow> Inl e
      | Inr (s2, c2) \<Rightarrow> add_loop E origin (drop (POOLSIZE - pool_writepos s) bs) c2 s2)"
proof (induction bs arbitrary: s rp c)
  case Nil
  then show ?case by simp
next
  case (Cons b bs)
  let ?w = "pool_writepos s"
  let ?s1 = "xor_byte b s"
  have r1: "rndpool ?s1 = Some (rp[?w := rp ! ?w XOR b])"
    and w1: "pool_writepos ?s1 = ?w + 1"
    using Cons.prems by (simp_all add: xor_byte_def)
  show ?case
  proof (cases "?w + 1 = POOLSIZE")
    case True
    have k: "POOLSIZE - ?w = 1" using True by simp
    have st: "s\<lparr>rndpool := Some (xor_at rp ?w (take 1 (b # bs))), pool_writepos := POOLSIZE\<rparr> = ?s1"
      using True Cons.prems(1) by (simp add: xor_byte_def)
    have d: "drop 1 (b # bs) = bs" "(length (b # bs) = 1) = (bs = [])" "c + 1 = Suc c"
      by simp_all
    show ?thesis
      unfolding k st d using True w1 by (simp add: Let_def)
  next
    case False
    then have lt: "?w + 1 < POOLSIZE" using Cons.prems by simp
    have k: "POOLSIZE - ?w = Suc (POOLSIZE - pool_writepos ?s1)" using lt w1 by simp
    have st: "?s1\<lparr>rndpool := Some (xor_at (rp[?w := rp ! ?w XOR b]) (pool_writepos ?s1)
                                    (take (POOLSIZE - pool_writepos ?s1) bs)),
                 pool_writepos := POOLSIZE\<rparr>
              = s\<lparr>rndpool := Some (xor_at rp ?w (take (POOLSIZE - ?w) (b # bs))),
                  pool_writepos := POOLSIZE\<rparr>"
      unfolding k using w1 by (simp add: xor_byte_def)
    have ih: "add_loop E origin bs (c + 1) ?s1 =
       (case wrap_pool E origin (c + 1 + (POOLSIZE - pool_writepos ?s1))
             (length bs = POOLSIZE - pool_writepos ?s1)
             (?s1\<lparr>rndpool := Some (xor_at (rp[?w := rp ! ?w XOR b]) (pool_writepos ?s1)
                                    (take (POOLSIZE - pool_writepos ?s1) bs)),
                 pool_writepos := POOLSIZE\<rparr>) of
        Inl e \<Rightarrow> Inl e
      | Inr (s2, c2) \<Rightarrow> add_loop E origin (drop (POOLSIZE - pool_writepos ?s1) bs) c2 s2)"
      by (rule Cons.IH[OF r1]) (use Cons.prems w1 lt in simp_all)
    have "add_loop E origin (b # bs) c s = add_loop E origin bs (c + 1) ?s1"
      using lt w1 by (simp add: Let_def)
    moreover have d: "drop (Suc (POOLSIZE - pool_writepos ?s1)) (b # bs) = drop (POOLSIZE - pool_writepos ?s1) bs"
      "(length (b # bs) = Suc (POOLSIZE - pool_writepos ?s1)) = (length bs = POOLSIZE - pool_writepos ?s1)"
      "c + Suc (POOLSIZE - pool_writepos ?s1) = c + 1 + (POOLSIZE - pool_writepos ?s1)"
      by simp_all
    ultimately show ?thesis
      unfolding ih st[symmetric] unfolding k d by simp
  qed
qed

text \<open>
  C3, as the code has it. \<^verbatim>\<open>add_randomness\<close> runs its loop from
  \<open>count = 0\<close>. As long as the buffer does not reach the end of the pool, its bytes
  are xored into \<^verbatim>\<open>rndpool\<close> from \<^verbatim>\<open>pool_writepos\<close> on and
  \<^verbatim>\<open>pool_writepos\<close> moves by their number. Otherwise the first
  \<open>k = POOLSIZE - pool_writepos\<close> bytes are xored in up to the end of the pool;
  exactly when the origin is at least \<open>SLOWPOLL\<close> and \<^verbatim>\<open>pool_filled\<close> is
  false, \<^verbatim>\<open>pool_filled_counter\<close> grows by \<open>count + k\<close>, the number of bytes
  of this buffer taken since the call began or since its last credited wrap, and
  \<^verbatim>\<open>pool_filled\<close> is set once the counter has reached \<^verbatim>\<open>POOLSIZE\<close>;
  then \<^verbatim>\<open>pool_writepos\<close> is 0, \<^verbatim>\<open>rndpool\<close> is mixed,
  \<^verbatim>\<open>just_mixed\<close> says whether the wrapping byte was the last of the buffer, and
  the loop goes on with the rest of the buffer (\<open>count\<close> back at 0 after a credit).
\<close>

theorem add_loop_effect:
  assumes "rndpool s = Some rp" and "pool_writepos s < POOLSIZE"
  shows "add_loop E origin buf count s =
    (if pool_writepos s + length buf < POOLSIZE
     then Inr (s\<lparr>rndpool := Some (xor_at rp (pool_writepos s) buf),
                 pool_writepos := pool_writepos s + length buf\<rparr>)
     else
       (let k = POOLSIZE - pool_writepos s;
            credit = (origin_value origin \<ge> origin_value RANDOM_ORIGIN_SLOWPOLL
                      \<and> \<not> pool_filled s);
            c = size_t_add (pool_filled_counter s) (count + k);
            s1 = s\<lparr>rndpool := Some (xor_at rp (pool_writepos s) (take k buf)),
                   pool_writepos := POOLSIZE\<rparr>;
            s2 = (if credit then s1\<lparr>pool_filled_counter := c, pool_filled := (POOLSIZE \<le> c)\<rparr>
                  else s1)
        in bindf (mix_pool E RNDPOOL (s2\<lparr>pool_writepos := 0\<rparr>))
             (\<lambda>s3. add_loop E origin (drop k buf) (if credit then 0 else count + k)
                     (s3\<lparr>mixrnd := mixrnd s3 + 1, just_mixed := (length buf = k)\<rparr>))))"
proof (cases "pool_writepos s + length buf < POOLSIZE")
  case True
  then show ?thesis using add_loop_nowrap[OF assms(1) True] by simp
next
  case False
  then have ge: "POOLSIZE \<le> pool_writepos s + length buf" by simp
  show ?thesis
  proof (cases "origin_value origin \<ge> origin_value RANDOM_ORIGIN_SLOWPOLL \<and> \<not> pool_filled s")
    case True
    then have cr: "(origin_value RANDOM_ORIGIN_SLOWPOLL \<le> origin_value origin \<and> \<not> pool_filled s) = True"
      and nf: "pool_filled s = False"
      by simp_all
    show ?thesis
      unfolding add_loop_wrap[OF assms ge, of E origin count] case_sum_bindf
      using False
      by (simp add: wrap_pool_def credit_filled_def Let_def bindf_assoc cr nf del: origin_value.simps)
  next
    case False
    then have cr: "(origin_value RANDOM_ORIGIN_SLOWPOLL \<le> origin_value origin \<and> \<not> pool_filled s) = False"
      by simp
    show ?thesis
      unfolding add_loop_wrap[OF assms ge, of E origin count] case_sum_bindf
      using ge
      by (simp add: wrap_pool_def credit_filled_def Let_def bindf_assoc cr del: origin_value.simps)
  qed
qed

text \<open>
  C3, as the claim states it, fails. After 500 and then 100 bytes of origin
  \<open>SLOWPOLL\<close> on the fresh pool the write position has wrapped, and 600 bytes were
  accumulated since the last wrap, but the counter was credited with the 100 bytes
  of the second buffer only and \<^verbatim>\<open>pool_filled\<close> is still false.
\<close>

theorem add_randomness_credit_counterexample:
  "\<not> isl after_two_adds \<and> pool_writepos (projr after_two_adds) = 0
   \<and> pool_filled_counter (projr after_two_adds) = 100
   \<and> \<not> pool_filled (projr after_two_adds)"
proof -
  let ?s0 = "locked_state SF_enoent []"
  let ?s0' = "?s0\<lparr>addbytes := addbytes ?s0 + of_nat (length (replicate 500 (0x5A::byte))),
                naddbytes := naddbytes ?s0 + 1\<rparr>"
  have a1: "add_randomness test_env (replicate 500 0x5A) RANDOM_ORIGIN_SLOWPOLL ?s0
      = Inr (?s0'\<lparr>rndpool := Some (xor_at (replicate (POOLSIZE + BLOCKLEN) 0) 0 (replicate 500 0x5A)),
            pool_writepos := 500\<rparr>)"
    unfolding add_randomness_def
    by (subst add_loop_nowrap[where rp = "replicate (POOLSIZE + BLOCKLEN) 0"])
       (simp_all add: locked_state_simps)
  let ?s1 = "?s0'\<lparr>rndpool := Some (xor_at (replicate (POOLSIZE + BLOCKLEN) 0) 0 (replicate 500 0x5A)),
            pool_writepos := 500\<rparr>"
  let ?s1' = "?s1\<lparr>addbytes := addbytes ?s1 + of_nat (length (replicate 100 (0x5A::byte))),
                naddbytes := naddbytes ?s1 + 1\<rparr>"
  have a2: "add_randomness test_env (replicate 100 0x5A) RANDOM_ORIGIN_SLOWPOLL ?s1
      = add_loop test_env RANDOM_ORIGIN_SLOWPOLL (replicate 100 0x5A) 0 ?s1'"
    by (simp add: add_randomness_def locked_state_simps)
  have w: "add_loop test_env RANDOM_ORIGIN_SLOWPOLL (replicate 100 0x5A) 0 ?s1' =
     (case wrap_pool test_env RANDOM_ORIGIN_SLOWPOLL (0 + (POOLSIZE - pool_writepos ?s1'))
             (length (replicate 100 (0x5A::byte)) = POOLSIZE - pool_writepos ?s1')
             (?s1'\<lparr>rndpool := Some (xor_at (xor_at (replicate (POOLSIZE + BLOCKLEN) 0) 0 (replicate 500 0x5A)) (pool_writepos ?s1')
                    (take (POOLSIZE - pool_writepos ?s1') (replicate 100 0x5A))),
                pool_writepos := POOLSIZE\<rparr>) of
        Inl e \<Rightarrow> Inl e
      | Inr (s2, c2) \<Rightarrow> add_loop test_env RANDOM_ORIGIN_SLOWPOLL (drop (POOLSIZE - pool_writepos ?s1') (replicate 100 0x5A)) c2 s2)"
    by (rule add_loop_wrap) simp_all
  show ?thesis
    unfolding after_two_adds_def a1 bindf_Inr a2 w
    by (simp add: wrap_pool_def credit_filled_def mix_pool_def locked_state_simps
                  size_t_add_def Let_def)
qed

theorem add_loop_effect_witness:
  "rndpool (locked_state SF_enoent []) = Some (replicate (POOLSIZE + BLOCKLEN) 0)
   \<and> pool_writepos (locked_state SF_enoent []) < POOLSIZE
   \<and> \<not> isl (add_loop test_env RANDOM_ORIGIN_SLOWPOLL (replicate POOLSIZE 0x5A) 0
               (locked_state SF_enoent []))
   \<and> pool_filled_counter (projr (add_loop test_env RANDOM_ORIGIN_SLOWPOLL (replicate POOLSIZE 0x5A) 0
               (locked_state SF_enoent []))) = POOLSIZE
   \<and> pool_filled (projr (add_loop test_env RANDOM_ORIGIN_SLOWPOLL (replicate POOLSIZE 0x5A) 0
               (locked_state SF_enoent [])))
   \<and> pool_writepos (projr (add_loop test_env RANDOM_ORIGIN_SLOWPOLL (replicate POOLSIZE 0x5A) 0
               (locked_state SF_enoent []))) = 0
   \<and> just_mixed (projr (add_loop test_env RANDOM_ORIGIN_SLOWPOLL (replicate POOLSIZE 0x5A) 0
               (locked_state SF_enoent [])))"
proof -
  have a: "rndpool (locked_state SF_enoent []) = Some (replicate (POOLSIZE + BLOCKLEN) 0)"
    "pool_writepos (locked_state SF_enoent []) < POOLSIZE"
    by (simp_all add: locked_state_simps)
  show ?thesis
    using a add_loop_effect[OF a, where E = test_env and origin = RANDOM_ORIGIN_SLOWPOLL
                               and buf = "replicate POOLSIZE 0x5A" and count = 0]
    by (simp add: locked_state_simps mix_pool_def Let_def size_t_add_def)
qed

section \<open>Loading the seed file\<close>

lemma seed_file_mix_Inr:
  assumes "seed_file_mix E buffer s = Inr (ok, s')"
  shows "ok"
    and "w_trace s' = w_trace s @ [(RANDOM_ORIGIN_INIT, if e_jent E then 128 else 32, GCRY_STRONG_RANDOM)]"
    and "pool_filled s' = pool_filled s"
    and "pool_filled_counter s' = pool_filled_counter s"
    and "allow_seed_file_update s'"
proof -
  from assms obtain s1 where a1: "add_randomness E buffer RANDOM_ORIGIN_INIT s = Inr s1"
    and r1: "(case getpid E s1 of
          (x, s2) \<Rightarrow>
            bindf (add_randomness E (word_bytes 4 x) RANDOM_ORIGIN_INIT s2) (\<lambda>s3.
            bindf (add_randomness E (word_bytes 8 (e_time E (w_clock s3))) RANDOM_ORIGIN_INIT
                     (s3\<lparr>w_clock := w_clock s3 + 1\<rparr>)) (\<lambda>s4.
            bindf (add_randomness E (word_bytes 8 (e_clock E (w_clock s4))) RANDOM_ORIGIN_INIT
                     (s4\<lparr>w_clock := w_clock s4 + 1\<rparr>)) (\<lambda>s5.
            bindf (if e_jent E
                   then read_random_source E RANDOM_ORIGIN_INIT 128 GCRY_STRONG_RANDOM s5
                   else read_random_source E RANDOM_ORIGIN_INIT 32 GCRY_STRONG_RANDOM s5)
              (\<lambda>s6. Inr (True, s6\<lparr>allow_seed_file_update := True\<rparr>)))))) = Inr (ok, s')"
    unfolding seed_file_mix_def bindf_eq_Inr by blast
  let ?s2 = "s1\<lparr>w_clock := w_clock s1 + 1\<rparr>"
  from r1 have r2: "bindf (add_randomness E (word_bytes 4 (e_getpid E (w_clock s1))) RANDOM_ORIGIN_INIT ?s2) (\<lambda>s3.
            bindf (add_randomness E (word_bytes 8 (e_time E (w_clock s3))) RANDOM_ORIGIN_INIT
                     (s3\<lparr>w_clock := w_clock s3 + 1\<rparr>)) (\<lambda>s4.
            bindf (add_randomness E (word_bytes 8 (e_clock E (w_clock s4))) RANDOM_ORIGIN_INIT
                     (s4\<lparr>w_clock := w_clock s4 + 1\<rparr>)) (\<lambda>s5.
            bindf (if e_jent E
                   then read_random_source E RANDOM_ORIGIN_INIT 128 GCRY_STRONG_RANDOM s5
                   else read_random_source E RANDOM_ORIGIN_INIT 32 GCRY_STRONG_RANDOM s5)
              (\<lambda>s6. Inr (True, s6\<lparr>allow_seed_file_update := True\<rparr>))))) = Inr (ok, s')"
    by (simp add: getpid_def)
  then obtain s3 where
        a3: "add_randomness E (word_bytes 4 (e_getpid E (w_clock s1))) RANDOM_ORIGIN_INIT ?s2 = Inr s3"
    and r3: "bindf (add_randomness E (word_bytes 8 (e_time E (w_clock s3))) RANDOM_ORIGIN_INIT
                     (s3\<lparr>w_clock := w_clock s3 + 1\<rparr>)) (\<lambda>s4.
            bindf (add_randomness E (word_bytes 8 (e_clock E (w_clock s4))) RANDOM_ORIGIN_INIT
                     (s4\<lparr>w_clock := w_clock s4 + 1\<rparr>)) (\<lambda>s5.
            bindf (if e_jent E
                   then read_random_source E RANDOM_ORIGIN_INIT 128 GCRY_STRONG_RANDOM s5
                   else read_random_source E RANDOM_ORIGIN_INIT 32 GCRY_STRONG_RANDOM s5)
              (\<lambda>s6. Inr (True, s6\<lparr>allow_seed_file_update := True\<rparr>)))) = Inr (ok, s')"
    unfolding bindf_eq_Inr[of "add_randomness E (word_bytes 4 (e_getpid E (w_clock s1))) RANDOM_ORIGIN_INIT ?s2"]
    by blast
  then obtain s4 where
        a4: "add_randomness E (word_bytes 8 (e_time E (w_clock s3))) RANDOM_ORIGIN_INIT
                     (s3\<lparr>w_clock := w_clock s3 + 1\<rparr>) = Inr s4"
    and r4: "bindf (add_randomness E (word_bytes 8 (e_clock E (w_clock s4))) RANDOM_ORIGIN_INIT
                     (s4\<lparr>w_clock := w_clock s4 + 1\<rparr>)) (\<lambda>s5.
            bindf (if e_jent E
                   then read_random_source E RANDOM_ORIGIN_INIT 128 GCRY_STRONG_RANDOM s5
                   else read_random_source E RANDOM_ORIGIN_INIT 32 GCRY_STRONG_RANDOM s5)
              (\<lambda>s6. Inr (True, s6\<lparr>allow_seed_file_update := True\<rparr>))) = Inr (ok, s')"
    unfolding bindf_eq_Inr[of "add_randomness E (word_bytes 8 (e_time E (w_clock s3))) RANDOM_ORIGIN_INIT
                     (s3\<lparr>w_clock := w_clock s3 + 1\<rparr>)"]
    by blast
  then obtain s5 where
        a5: "add_randomness E (word_bytes 8 (e_clock E (w_clock s4))) RANDOM_ORIGIN_INIT
                     (s4\<lparr>w_clock := w_clock s4 + 1\<rparr>) = Inr s5"
    and r5: "bindf (if e_jent E
                   then read_random_source E RANDOM_ORIGIN_INIT 128 GCRY_STRONG_RANDOM s5
                   else read_random_source E RANDOM_ORIGIN_INIT 32 GCRY_STRONG_RANDOM s5)
              (\<lambda>s6. Inr (True, s6\<lparr>allow_seed_file_update := True\<rparr>)) = Inr (ok, s')"
    unfolding bindf_eq_Inr[of "add_randomness E (word_bytes 8 (e_clock E (w_clock s4))) RANDOM_ORIGIN_INIT
                     (s4\<lparr>w_clock := w_clock s4 + 1\<rparr>)"]
    by blast
  then obtain s6 where
        a6': "(if e_jent E
                   then read_random_source E RANDOM_ORIGIN_INIT 128 GCRY_STRONG_RANDOM s5
                   else read_random_source E RANDOM_ORIGIN_INIT 32 GCRY_STRONG_RANDOM s5) = Inr s6"
    and fin: "ok = True" "s' = s6\<lparr>allow_seed_file_update := True\<rparr>"
    unfolding bindf_eq_Inr by auto
  have a6: "read_random_source E RANDOM_ORIGIN_INIT (if e_jent E then 128 else 32)
                GCRY_STRONG_RANDOM s5 = Inr s6"
    using a6' by (cases "e_jent E") simp_all
  note p1 = add_randomness_Inr(1)[OF a1]
  note p3 = add_randomness_Inr(1)[OF a3]
  note p4 = add_randomness_Inr(1)[OF a4]
  note p5 = add_randomness_Inr(1)[OF a5]
  from read_random_source_Inr[OF a6] obtain chunks rc rest where
    g: "w_gather s5 = (chunks, rc) # rest"
    and p6: "acc_step RANDOM_ORIGIN_INIT
       (s5\<lparr>w_trace := w_trace s5 @ [(RANDOM_ORIGIN_INIT, if e_jent E then 128 else 32, GCRY_STRONG_RANDOM)],
           w_gather := rest\<rparr>) s6"
    by blast
  show "ok" using fin by simp
  show "allow_seed_file_update s'" using fin by simp
  have t: "w_trace s5 = w_trace s"
    using acc_step_world(1)[OF p1] acc_step_world(1)[OF p3] acc_step_world(1)[OF p4]
      acc_step_world(1)[OF p5] by simp
  show "w_trace s' = w_trace s @ [(RANDOM_ORIGIN_INIT, if e_jent E then 128 else 32, GCRY_STRONG_RANDOM)]"
    using fin t acc_step_world(1)[OF p6] by simp
  have lo: "origin_value RANDOM_ORIGIN_INIT < origin_value RANDOM_ORIGIN_SLOWPOLL" by simp
  show "pool_filled s' = pool_filled s"
    using fin acc_step_low[OF p1 lo] acc_step_low[OF p3 lo] acc_step_low[OF p4 lo]
      acc_step_low[OF p5 lo] acc_step_low[OF p6 lo] by simp
  show "pool_filled_counter s' = pool_filled_counter s"
    using fin acc_step_low[OF p1 lo] acc_step_low[OF p3 lo] acc_step_low[OF p4 lo]
      acc_step_low[OF p5 lo] acc_step_low[OF p6 lo] by simp
qed

lemma read_seed_file_True:
  assumes "read_seed_file E s = Inr (True, s')"
  shows "\<exists>buffer. w_seed_file s = SF_regular POOLSIZE (Some buffer) \<and> length buffer = POOLSIZE
           \<and> seed_file_name s \<noteq> None \<and> seed_file_mix E buffer s = Inr (True, s')"
  using assms
  by (auto simp: read_seed_file_def split: if_splits seed_file.splits option.splits)

text \<open>
  C2, as the code has it. When \<^verbatim>\<open>read_seed_file\<close> has loaded a seed file and
  returns true, the one request it made to the slow gatherer is for 128 bytes with
  a jitter RNG and for 32 bytes without, with origin \<open>INIT\<close> at level
  \<open>STRONG\<close>; loading has changed neither \<^verbatim>\<open>pool_filled_counter\<close> nor
  \<^verbatim>\<open>pool_filled\<close>; and \<^verbatim>\<open>read_pool\<close>, which asks for the seed file
  only while \<^verbatim>\<open>pool_filled\<close> is false, then sets \<^verbatim>\<open>pool_filled\<close>
  itself.
\<close>

theorem read_seed_file_loaded:
  assumes "read_seed_file E s = Inr (True, s')"
  shows "w_trace s' = w_trace s @ [(RANDOM_ORIGIN_INIT, if e_jent E then 128 else 32, GCRY_STRONG_RANDOM)]
         \<and> pool_filled_counter s' = pool_filled_counter s
         \<and> pool_filled s' = pool_filled s
         \<and> seed_on_demand E s = Inr (if pool_filled s then s else s'\<lparr>pool_filled := True\<rparr>)"
proof -
  from read_seed_file_True[OF assms] obtain buffer where
    m: "seed_file_mix E buffer s = Inr (True, s')" by blast
  note p = seed_file_mix_Inr[OF m]
  show ?thesis
    using p assms by (simp add: seed_on_demand_def)
qed

lemma seed_file_mix_ok:
  assumes "pool_is_locked s" "slow_gather_fnc s" "w_gather s = (chunks, rc) # rest" "0 \<le> rc"
  shows "\<exists>s'. seed_file_mix E buffer s = Inr (True, s')"
proof -
  from add_randomness_ok[OF assms(1), of E buffer RANDOM_ORIGIN_INIT] obtain s1 where
    a1: "add_randomness E buffer RANDOM_ORIGIN_INIT s = Inr s1" and p1: "acc_step RANDOM_ORIGIN_INIT s s1"
    by blast
  note w1 = acc_step_world[OF p1]
  let ?s2 = "s1\<lparr>w_clock := w_clock s1 + 1\<rparr>"
  have l2: "pool_is_locked ?s2" using w1 assms by simp
  from add_randomness_ok[OF l2, of E "word_bytes 4 (e_getpid E (w_clock s1))" RANDOM_ORIGIN_INIT]
  obtain s3 where
    a3: "add_randomness E (word_bytes 4 (e_getpid E (w_clock s1))) RANDOM_ORIGIN_INIT ?s2 = Inr s3"
    and p3: "acc_step RANDOM_ORIGIN_INIT ?s2 s3" by blast
  note w3 = acc_step_world[OF p3]
  let ?s3 = "s3\<lparr>w_clock := w_clock s3 + 1\<rparr>"
  have l3: "pool_is_locked ?s3" using w3 l2 by simp
  from add_randomness_ok[OF l3, of E "word_bytes 8 (e_time E (w_clock s3))" RANDOM_ORIGIN_INIT]
  obtain s4 where
    a4: "add_randomness E (word_bytes 8 (e_time E (w_clock s3))) RANDOM_ORIGIN_INIT ?s3 = Inr s4"
    and p4: "acc_step RANDOM_ORIGIN_INIT ?s3 s4" by blast
  note w4 = acc_step_world[OF p4]
  let ?s4 = "s4\<lparr>w_clock := w_clock s4 + 1\<rparr>"
  have l4: "pool_is_locked ?s4" using w4 l3 by simp
  from add_randomness_ok[OF l4, of E "word_bytes 8 (e_clock E (w_clock s4))" RANDOM_ORIGIN_INIT]
  obtain s5 where
    a5: "add_randomness E (word_bytes 8 (e_clock E (w_clock s4))) RANDOM_ORIGIN_INIT ?s4 = Inr s5"
    and p5: "acc_step RANDOM_ORIGIN_INIT ?s4 s5" by blast
  note w5 = acc_step_world[OF p5]
  have l5: "pool_is_locked s5" "slow_gather_fnc s5" "w_gather s5 = (chunks, rc) # rest"
    using w5 w4 w3 w1 l4 assms by simp_all
  from read_random_source_ok[OF l5 assms(4), of E RANDOM_ORIGIN_INIT "if e_jent E then 128 else 32"
         GCRY_STRONG_RANDOM]
  obtain s6 where
    a6: "read_random_source E RANDOM_ORIGIN_INIT (if e_jent E then 128 else 32) GCRY_STRONG_RANDOM s5 = Inr s6"
    by blast
  have a6': "(if e_jent E
                   then read_random_source E RANDOM_ORIGIN_INIT 128 GCRY_STRONG_RANDOM s5
                   else read_random_source E RANDOM_ORIGIN_INIT 32 GCRY_STRONG_RANDOM s5) = Inr s6"
    using a6 by (cases "e_jent E") simp_all
  show ?thesis
    unfolding seed_file_mix_def a1 bindf_Inr getpid_def prod.case a3 a4 a5 a6'
    by simp
qed

lemma seeded_state_simps:
  "pool_is_locked seeded_state" "slow_gather_fnc seeded_state"
  "w_gather seeded_state = [([replicate 32 7], 0)]"
  "w_seed_file seeded_state = SF_regular POOLSIZE (Some (replicate POOLSIZE 0))"
  "seed_file_name seeded_state = Some ''random_seed''"
  "\<not> pool_filled seeded_state" "pool_filled_counter seeded_state = 0"
  "w_trace seeded_state = []"
  by (simp_all add: seeded_state_def locked_state_simps)

lemma seeded_read:
  "\<exists>s'. read_seed_file test_env seeded_state = Inr (True, s')"
proof -
  have "read_seed_file test_env seeded_state = seed_file_mix test_env (replicate POOLSIZE 0) seeded_state"
    by (simp add: read_seed_file_def seeded_state_simps)
  then show ?thesis
    using seed_file_mix_ok[of seeded_state "[replicate 32 7]" 0 "[]" test_env "replicate POOLSIZE 0"]
    by (simp add: seeded_state_simps)
qed

theorem read_seed_file_loaded_witness:
  "read_seed_file test_env seeded_state
     = Inr (True, snd (projr (read_seed_file test_env seeded_state)))
   \<and> w_trace (snd (projr (read_seed_file test_env seeded_state)))
       = [(RANDOM_ORIGIN_INIT, 32, GCRY_STRONG_RANDOM)]
   \<and> pool_filled_counter (snd (projr (read_seed_file test_env seeded_state))) = 0
   \<and> \<not> pool_filled (snd (projr (read_seed_file test_env seeded_state)))
   \<and> seed_on_demand test_env seeded_state
       = Inr ((snd (projr (read_seed_file test_env seeded_state)))\<lparr>pool_filled := True\<rparr>)"
proof -
  from seeded_read obtain s' where r: "read_seed_file test_env seeded_state = Inr (True, s')"
    by blast
  then have e: "read_seed_file test_env seeded_state
     = Inr (True, snd (projr (read_seed_file test_env seeded_state)))"
    by simp
  show ?thesis
    using e read_seed_file_loaded[OF e]
    by (simp add: seeded_state_simps test_env_simps)
qed

text \<open>
  C2, as the claim states it, fails. With a seed file of \<^verbatim>\<open>POOLSIZE\<close> zero
  bytes and no jitter RNG, seeding on demand makes one request, with origin
  \<open>INIT\<close> and not \<open>EXTRAPOLL\<close>, and leaves \<^verbatim>\<open>pool_filled\<close> true while
  \<^verbatim>\<open>pool_filled_counter\<close> is still 0.
\<close>

theorem seed_file_origin_counterexample:
  "\<not> isl (seed_on_demand test_env seeded_state)
   \<and> w_trace (projr (seed_on_demand test_env seeded_state))
       = [(RANDOM_ORIGIN_INIT, 32, GCRY_STRONG_RANDOM)]
   \<and> pool_filled (projr (seed_on_demand test_env seeded_state))
   \<and> pool_filled_counter (projr (seed_on_demand test_env seeded_state)) = 0"
proof -
  from seeded_read obtain s' where r: "read_seed_file test_env seeded_state = Inr (True, s')"
    by blast
  from read_seed_file_True[OF r] obtain buffer where
    m: "seed_file_mix test_env buffer seeded_state = Inr (True, s')" by blast
  note p = seed_file_mix_Inr[OF m]
  have "seed_on_demand test_env seeded_state = Inr (s'\<lparr>pool_filled := True\<rparr>)"
    by (simp add: seed_on_demand_def seeded_state_simps r)
  then show ?thesis
    using p by (simp add: seeded_state_simps test_env_simps)
qed

section \<open>The block of the first seeding for level 2\<close>

lemma extra_poll_first:
  assumes "pool_balance s = 0" "needed \<le> POOLSIZE"
  shows "extra_poll E needed s =
     bindf (read_random_source E RANDOM_ORIGIN_EXTRAPOLL needed GCRY_VERY_STRONG_RANDOM s)
       (\<lambda>s1. Inr (s1\<lparr>pool_balance := int needed\<rparr>))"
  unfolding extra_poll_def
proof (rule bindf_cong_Inr)
  fix s1 assume r: "read_random_source E RANDOM_ORIGIN_EXTRAPOLL needed GCRY_VERY_STRONG_RANDOM s = Inr s1"
  from read_random_source_Inr[OF r] obtain rest where
    "acc_step RANDOM_ORIGIN_EXTRAPOLL
       (s\<lparr>w_trace := w_trace s @ [(RANDOM_ORIGIN_EXTRAPOLL, needed, GCRY_VERY_STRONG_RANDOM)],
          w_gather := rest\<rparr>) s1"
    by blast
  from acc_step_world(6)[OF this] have "pool_balance s1 = 0" using assms by simp
  then show "Inr (s1\<lparr>pool_balance := int_of_size_t (size_t_add (size_t_of_int (pool_balance s1)) needed)\<rparr>)
        = (Inr (s1\<lparr>pool_balance := int needed\<rparr>) :: fatal + rng)"
    using assms(2) by (simp add: size_t_add_0 int_of_size_t_small)
qed

lemma initial_extra_seeding_eq:
  assumes "\<not> did_initial_extra_seeding s" and "len \<le> SIZE_MAX"
  shows "initial_extra_seeding E len GCRY_VERY_STRONG_RANDOM s =
     (if len > POOLSIZE then Inl BUG_initial_seeding
      else bindf (read_random_source E RANDOM_ORIGIN_EXTRAPOLL (max len 16)
                    GCRY_VERY_STRONG_RANDOM (s\<lparr>pool_balance := 0\<rparr>))
             (\<lambda>s1. Inr (s1\<lparr>pool_balance := int (max len 16),
                             did_initial_extra_seeding := True\<rparr>)))"
proof -
  let ?s1 = "s\<lparr>pool_balance := 0\<rparr>"
  have n: "size_t_sub len (size_t_of_int (pool_balance ?s1)) = len"
    using assms(2) by (simp add: size_t_sub_0)
  have b: "pool_balance ?s1 = 0" by simp
  show ?thesis
  proof (cases "len < 16")
    case True
    then have m: "max len 16 = 16" by simp
    show ?thesis
      unfolding initial_extra_seeding_def Let_def n m
      using True assms(1) extra_poll_first[OF b, of 16 E]
      by (simp add: bindf_assoc)
  next
    case False
    then have m: "max len 16 = len" by simp
    show ?thesis
    proof (cases "len > POOLSIZE")
      case True
      then show ?thesis
        unfolding initial_extra_seeding_def Let_def n
        using False assms(1) by simp
    next
      case le: False
      then have "len \<le> POOLSIZE" by simp
      from extra_poll_first[OF b this, of E] show ?thesis
        unfolding initial_extra_seeding_def Let_def n m
        using False le assms(1) by (simp add: bindf_assoc)
    qed
  qed
qed

lemma initial_extra_seeding_Inr:
  assumes "\<not> did_initial_extra_seeding s" and "len \<le> SIZE_MAX"
    and "initial_extra_seeding E len GCRY_VERY_STRONG_RANDOM s = Inr s'"
  shows "w_trace s' = w_trace s @ [(RANDOM_ORIGIN_EXTRAPOLL, max len 16, GCRY_VERY_STRONG_RANDOM)]"
    and "pool_balance s' = int (max len 16)" and "did_initial_extra_seeding s'"
    and "len \<le> POOLSIZE"
proof -
  have le: "len \<le> POOLSIZE"
    using assms(3) unfolding initial_extra_seeding_eq[OF assms(1,2)] by (simp split: if_splits)
  with assms(3) obtain s1 where
    r: "read_random_source E RANDOM_ORIGIN_EXTRAPOLL (max len 16)
                    GCRY_VERY_STRONG_RANDOM (s\<lparr>pool_balance := 0\<rparr>) = Inr s1"
    and e: "s' = s1\<lparr>pool_balance := int (max len 16), did_initial_extra_seeding := True\<rparr>"
    unfolding initial_extra_seeding_eq[OF assms(1,2)] by (auto simp: bindf_eq_Inr)
  from read_random_source_Inr[OF r] obtain rest where
    p: "acc_step RANDOM_ORIGIN_EXTRAPOLL
       (s\<lparr>pool_balance := 0,
          w_trace := w_trace (s\<lparr>pool_balance := 0\<rparr>)
                     @ [(RANDOM_ORIGIN_EXTRAPOLL, max len 16, GCRY_VERY_STRONG_RANDOM)],
          w_gather := rest\<rparr>) s1"
    by auto
  show "w_trace s' = w_trace s @ [(RANDOM_ORIGIN_EXTRAPOLL, max len 16, GCRY_VERY_STRONG_RANDOM)]"
    using e acc_step_world(1)[OF p] by simp
  show "pool_balance s' = int (max len 16)" "did_initial_extra_seeding s'" using e by simp_all
  show "len \<le> POOLSIZE" by (rule le)
qed

lemma polled_state_simps:
  "pool_is_locked polled_state" "slow_gather_fnc polled_state"
  "w_gather polled_state = [([replicate 64 7], 0)]" "w_trace polled_state = []"
  "\<not> did_initial_extra_seeding polled_state" "pool_balance polled_state = 0"
  by (simp_all add: polled_state_def locked_state_simps)

section \<open>Entropy from the caller\<close>

lemma chunks_of_props:
  "0 < n \<Longrightarrow> list_all (\<lambda>c. 0 < length c \<and> length c \<le> n) (chunks_of n xs)
               \<and> concat (chunks_of n xs) = xs"
proof (induction n xs rule: chunks_of.induct)
  case (1 n xs)
  show ?case
  proof (cases "xs = []")
    case True
    then show ?thesis by (subst chunks_of.simps, subst (2) chunks_of.simps) simp
  next
    case False
    with 1 have ih: "list_all (\<lambda>c. 0 < length c \<and> length c \<le> n) (chunks_of n (drop n xs))
               \<and> concat (chunks_of n (drop n xs)) = drop n xs"
      by simp
    show ?thesis
      using False 1(2) ih
      by (subst chunks_of.simps, subst (2) chunks_of.simps) simp
  qed
qed

lemma add_bytes_loop_pieces:
  "add_bytes_loop E buf s = add_pieces E (chunks_of POOLSIZE buf) s"
proof (induction "length buf" arbitrary: buf s rule: less_induct)
  case less
  show ?case
  proof (cases "buf = []")
    case True
    then show ?thesis
      by (subst add_bytes_loop.simps, subst chunks_of.simps) simp
  next
    case False
    let ?n = "if length buf > POOLSIZE then POOLSIZE else length buf"
    have t: "take ?n buf = take POOLSIZE buf" "drop ?n buf = drop POOLSIZE buf" by simp_all
    have ih: "\<And>s'. add_bytes_loop E (drop POOLSIZE buf) s'
                 = add_pieces E (chunks_of POOLSIZE (drop POOLSIZE buf)) s'"
      by (rule less) (use False in simp)
    have step: "add_bytes_step E (take POOLSIZE buf) s =
       bindf (if rndpool s \<noteq> None
              then add_randomness E (take POOLSIZE buf) RANDOM_ORIGIN_EXTERNAL (lock_pool s)
              else Inr (lock_pool s))
         (\<lambda>s'. Inr (unlock_pool s'))"
      by (simp add: add_bytes_step_def Let_def lock_pool_def)
    have "add_bytes_loop E buf s =
        bindf (add_bytes_step E (take POOLSIZE buf) s) (add_bytes_loop E (drop POOLSIZE buf))"
      using False
      by (subst add_bytes_loop.simps) (simp add: Let_def t case_sum_bindf del: take_all drop_all)
    also have "\<dots> = add_pieces E (chunks_of POOLSIZE buf) s"
      using False
      by (subst chunks_of.simps) (simp add: step bindf_assoc ih[abs_def])
    finally show ?thesis .
  qed
qed

text \<open>
  C6, as the code has it. A null buffer gives the error code
  \<^verbatim>\<open>GPG_ERR_INV_ARG\<close>. An empty buffer, or a quality below 10 other than
  \<open>-1\<close> (which stands for an unknown quality and counts as 35), gives success
  with the state unchanged: neither pool nor counters nor lock are touched.
  Every other buffer is cut into pieces of at most \<^verbatim>\<open>POOLSIZE\<close> bytes, none
  empty, which make up the buffer, and each piece is accumulated under the lock
  with origin \<open>EXTERNAL\<close> when the pool is allocated (and skipped when it is not).
\<close>

theorem add_bytes_cases:
  "rngcsprng_add_bytes E buf quality s =
     (case buf of
        None \<Rightarrow> Inr (GPG_ERR_INV_ARG, s)
      | Some bytes \<Rightarrow>
          if bytes = [] \<or> (quality < 10 \<and> quality \<noteq> - 1) then Inr (GPG_ERR_NO_ERROR, s)
          else bindf (add_pieces E (chunks_of POOLSIZE bytes) (initialize_basics s))
                 (\<lambda>s'. Inr (GPG_ERR_NO_ERROR, s')))
   \<and> list_all (\<lambda>c. 0 < length c \<and> length c \<le> POOLSIZE) (chunks_of POOLSIZE (case_option [] id buf))
   \<and> concat (chunks_of POOLSIZE (case_option [] id buf)) = case_option [] id buf"
proof -
  have q: "(normalize_quality quality < 10) = (quality < 10 \<and> quality \<noteq> - 1)"
    by (simp add: normalize_quality_def)
  show ?thesis
    using chunks_of_props[of POOLSIZE "case_option [] id buf"]
    by (simp add: rngcsprng_add_bytes_def Let_def q add_bytes_loop_pieces split: option.splits)
qed

lemma chunks_of_short:
  assumes "xs \<noteq> []" and "length xs \<le> n"
  shows "chunks_of n xs = [xs]"
proof -
  have "0 < n" using assms by (cases xs) auto
  then show ?thesis
    using assms by (subst chunks_of.simps, subst chunks_of.simps) auto
qed

lemma add_pieces_one:
  assumes "rndpool s \<noteq> None"
  shows "\<exists>s'. add_pieces E [c] s = Inr s' \<and> addbytes s' = addbytes s + of_nat (length c)
            \<and> naddbytes s' = naddbytes s + 1 \<and> \<not> pool_is_locked s'"
proof -
  have lk: "pool_is_locked (lock_pool s)" by (simp add: lock_pool_def)
  from add_randomness_ok[OF lk, of E c RANDOM_ORIGIN_EXTERNAL] obtain s1 where
    a: "add_randomness E c RANDOM_ORIGIN_EXTERNAL (lock_pool s) = Inr s1"
    and b: "addbytes s1 = addbytes (lock_pool s) + of_nat (length c)"
       "naddbytes s1 = naddbytes (lock_pool s) + 1"
    by blast
  show ?thesis
    using assms a b by (simp add: lock_pool_def unlock_pool_def)
qed

theorem add_bytes_cases_witness:
  "rngcsprng_add_bytes test_env None 50 idle_state = Inr (GPG_ERR_INV_ARG, idle_state)
   \<and> rngcsprng_add_bytes test_env (Some (replicate 64 0x41)) 5 idle_state
       = Inr (GPG_ERR_NO_ERROR, idle_state)
   \<and> rngcsprng_add_bytes test_env (Some (replicate 64 0x41)) 50 idle_state
       = bindf (add_pieces test_env [replicate 64 0x41] idle_state)
           (\<lambda>s'. Inr (GPG_ERR_NO_ERROR, s'))
   \<and> chunks_of POOLSIZE (replicate 601 (0x41::byte)) = [replicate POOLSIZE 0x41, replicate 1 0x41]"
proof -
  have c: "chunks_of POOLSIZE (replicate 64 (0x41::byte)) = [replicate 64 0x41]"
    by (rule chunks_of_short) simp_all
  have c1: "chunks_of POOLSIZE [0x41::byte] = [[0x41]]"
    by (rule chunks_of_short) simp_all
  have c2: "chunks_of POOLSIZE (replicate 601 (0x41::byte)) = [replicate POOLSIZE 0x41, replicate 1 0x41]"
    by (subst chunks_of.simps) (simp add: c1)
  show ?thesis
    using add_bytes_cases[of test_env None 50 idle_state]
      add_bytes_cases[of test_env "Some (replicate 64 0x41)" 5 idle_state]
      add_bytes_cases[of test_env "Some (replicate 64 0x41)" 50 idle_state]
    by (simp add: c c2 initialize_basics_def idle_state_simps)
qed

text \<open>
  C6, as the claim states it, fails at quality \<open>-1\<close>, which is below 10: a
  64-byte buffer of this quality is accumulated, and the counters
  \<^verbatim>\<open>addbytes\<close> and \<^verbatim>\<open>naddbytes\<close> change.
\<close>

theorem add_bytes_unknown_quality_counterexample:
  "\<not> isl (rngcsprng_add_bytes test_env (Some (replicate 64 0x41)) (- 1) idle_state)
   \<and> fst (projr (rngcsprng_add_bytes test_env (Some (replicate 64 0x41)) (- 1) idle_state))
       = GPG_ERR_NO_ERROR
   \<and> addbytes idle_state = 0
   \<and> addbytes (snd (projr (rngcsprng_add_bytes test_env (Some (replicate 64 0x41)) (- 1) idle_state)))
       = 64
   \<and> naddbytes (snd (projr (rngcsprng_add_bytes test_env (Some (replicate 64 0x41)) (- 1) idle_state)))
       = 1"
proof -
  have c: "chunks_of POOLSIZE (replicate 64 (0x41::byte)) = [replicate 64 0x41]"
    by (rule chunks_of_short) simp_all
  have n: "rndpool idle_state \<noteq> None" by (simp add: idle_state_simps)
  from add_pieces_one[OF n, of test_env "replicate 64 0x41"] obtain s' where
    p: "add_pieces test_env [replicate 64 0x41] idle_state = Inr s'"
       "addbytes s' = addbytes idle_state + of_nat (length (replicate 64 (0x41::byte)))"
       "naddbytes s' = naddbytes idle_state + 1"
    by blast
  have "rngcsprng_add_bytes test_env (Some (replicate 64 0x41)) (- 1) idle_state
          = Inr (GPG_ERR_NO_ERROR, s')"
    by (simp add: rngcsprng_add_bytes_def normalize_quality_def Let_def add_bytes_loop_pieces c
                  initialize_basics_def idle_state_simps p(1) del: add_pieces.simps)
  then show ?thesis
    using p(2,3) by (simp add: idle_state_simps)
qed

section \<open>The outward wrapper\<close>

text \<open>
  C9. A request of length zero through \<^verbatim>\<open>_gcry_rngcsprng_randomize\<close> ends
  as \<^verbatim>\<open>initialize\<close> does, and when it returns the caller's buffer is what it
  was.
\<close>

theorem randomize_zero_length:
  "map_sum id fst (rngcsprng_randomize E buffer 0 level s)
     = map_sum id (\<lambda>s1. buffer) (initialize E s)"
  by (cases "initialize E s")
     (simp_all add: rngcsprng_randomize_def randomize_loop.simps[of _ _ _ 0] Let_def)

section \<open>An extraction that succeeds\<close>

text \<open>
  With the constant hash stub every call of \<^verbatim>\<open>mix_pool\<close> leaves the digest
  bytes 1 at the start of the hash buffer behind the pool.
\<close>

lemma const_mixblock: "mixblock const_prims md blk = (md, (\<lambda>i. 1))"
  by (simp add: const_prims_def)

lemma mix_iter_tail:
  assumes "p + 2 * DIGESTLEN \<le> POOLSIZE" and "length pool = POOLSIZE + BLOCKLEN"
  shows "snd (mix_iter const_prims md pool p) ! POOLSIZE = 1"
proof -
  have "snd (mix_iter const_prims md pool p) =
          (take (p + DIGESTLEN) pool @ digest_bytes (\<lambda>i. 1)
             @ drop (p + 2 * DIGESTLEN) (take POOLSIZE pool))
          @ (digest_bytes (\<lambda>i. 1) @ drop DIGESTLEN (wrap_window pool p))"
    by (simp add: mix_iter_eq[OF assms] const_mixblock)
  moreover have "length (take (p + DIGESTLEN) pool @ digest_bytes (\<lambda>i. 1)
             @ drop (p + 2 * DIGESTLEN) (take POOLSIZE pool)) = POOLSIZE"
    using assms by simp
  moreover have "(digest_bytes (\<lambda>i. 1) @ drop DIGESTLEN (wrap_window pool p)) ! 0 = (1::byte)"
    by (simp add: digest_bytes_def nth_append del: upt_Suc)
  ultimately show ?thesis by (metis nth_append_length_plus add.right_neutral)
qed

lemma mix_loop_tail:
  "1 \<le> n \<Longrightarrow> n < POOLBLOCKS \<Longrightarrow> p = (n - 1) * DIGESTLEN \<Longrightarrow> length pool = POOLSIZE + BLOCKLEN
   \<Longrightarrow> snd (mix_loop const_prims n md pool p) ! POOLSIZE = 1"
proof (induction const_prims n md pool p rule: mix_loop.induct)
  case (1 n md pool p)
  have p: "p + 2 * DIGESTLEN \<le> POOLSIZE" using 1(2,3,4) by simp
  obtain md' pool' where it: "mix_iter const_prims md pool p = (md', pool')"
    using prod.exhaust by blast
  have len: "length pool' = POOLSIZE + BLOCKLEN"
    using it p 1(5) by (auto simp: mix_iter_eq split: prod.splits)
  have st: "mix_loop const_prims n md pool p = mix_loop const_prims (n + 1) md' pool' (p + DIGESTLEN)"
    using 1(3) it by (subst mix_loop.simps) simp
  show ?case
  proof (cases "n + 1 < POOLBLOCKS")
    case True
    have "snd (mix_loop const_prims (n + 1) md' pool' (p + DIGESTLEN)) ! POOLSIZE = 1"
      using 1(1)[OF 1(3) it[symmetric] _ True _ len] 1(2,4) by (simp add: algebra_simps)
    then show ?thesis unfolding st .
  next
    case False
    then have "mix_loop const_prims (n + 1) md' pool' (p + DIGESTLEN) = (md', pool')"
      by (subst mix_loop.simps) simp
    then show ?thesis unfolding st using mix_iter_tail[OF p 1(5), of md] it by simp
  qed
qed

lemma mix_buffer_tail:
  assumes "length pool = POOLSIZE + BLOCKLEN"
  shows "mix_buffer const_prims fs pool ! POOLSIZE = 1"
proof -
  define p1 where "p1 = memcpy pool POOLSIZE (take DIGESTLEN (drop (POOLSIZE - DIGESTLEN) pool))"
  define p2 where "p2 = memcpy p1 (POOLSIZE + DIGESTLEN) (take (BLOCKLEN - DIGESTLEN) pool)"
  have l1: "length p1 = POOLSIZE + BLOCKLEN"
    unfolding p1_def using assms by (subst length_memcpy) simp_all
  have l2: "length p2 = POOLSIZE + BLOCKLEN"
    unfolding p2_def using assms l1 by (subst length_memcpy) simp_all
  obtain md p3 where mb: "mixblock_hashbuf const_prims (mixblock_init const_prims) p2 = (md, p3)"
    using prod.exhaust by blast
  have l3: "length p3 = POOLSIZE + BLOCKLEN"
    using length_mixblock_hashbuf[OF l2, of const_prims "mixblock_init const_prims"] mb by simp
  define p4 where "p4 = memcpy p3 0 (take DIGESTLEN (drop POOLSIZE p3))"
  have l4: "length p4 = POOLSIZE + BLOCKLEN"
    unfolding p4_def using l3 by (subst length_memcpy) simp_all
  define p5 where "p5 = (case fs of None \<Rightarrow> p4 | Some fd \<Rightarrow> xor_digest p4 fd)"
  have l5: "length p5 = POOLSIZE + BLOCKLEN"
    unfolding p5_def using l4 by (simp add: length_xor_digest split: option.splits)
  have "mix_buffer const_prims fs pool = snd (mix_loop const_prims 1 md p5 0)"
    unfolding mix_buffer_def Let_def mb[unfolded p2_def p1_def] prod.case p5_def p4_def
    by (rule refl)
  moreover have "snd (mix_loop const_prims 1 md p5 0) ! POOLSIZE = 1"
    by (rule mix_loop_tail) (use l5 in simp_all)
  ultimately show ?thesis by simp
qed

lemma wrap_pool_fills:
  assumes "pool_is_locked s" "\<not> pool_filled s" "pool_filled_counter s = 0"
    and "origin_value RANDOM_ORIGIN_SLOWPOLL \<le> origin_value origin"
  shows "\<exists>s'. wrap_pool E origin POOLSIZE l s = Inr (s', 0) \<and> pool_filled s'"
  using assms
  by (simp add: wrap_pool_def credit_filled_def mix_pool_def size_t_add_0 Let_def)

lemma add_randomness_fills:
  assumes lk: "pool_is_locked s" and nf: "\<not> pool_filled s" and c0: "pool_filled_counter s = 0"
    and w0: "pool_writepos s = 0" and rp: "rndpool s = Some rp" and len: "length c = POOLSIZE"
    and og: "origin_value RANDOM_ORIGIN_SLOWPOLL \<le> origin_value origin"
  shows "\<exists>s'. add_randomness E c origin s = Inr s' \<and> pool_filled s' \<and> acc_step origin s s'"
proof -
  define s0 where "s0 = s\<lparr>addbytes := addbytes s + of_nat (length c), naddbytes := naddbytes s + 1\<rparr>"
  define s1 where "s1 = s0\<lparr>rndpool := Some (xor_at rp (pool_writepos s0)
                                         (take (POOLSIZE - pool_writepos s0) c)),
                            pool_writepos := POOLSIZE\<rparr>"
  have p0: "rndpool s0 = Some rp" "pool_writepos s0 = 0"
    using rp w0 by (simp_all add: s0_def)
  have a: "add_loop E origin c 0 s0 =
      (case wrap_pool E origin (0 + (POOLSIZE - pool_writepos s0))
              (length c = POOLSIZE - pool_writepos s0) s1 of
         Inl e \<Rightarrow> Inl e
       | Inr (s2, c2) \<Rightarrow>
           add_loop E origin (drop (POOLSIZE - pool_writepos s0) c) c2 s2)"
    unfolding s1_def by (rule add_loop_wrap[OF p0(1)]) (use p0 len in simp_all)
  have p1: "pool_is_locked s1" "\<not> pool_filled s1" "pool_filled_counter s1 = 0"
    using lk nf c0 by (simp_all add: s1_def s0_def)
  from wrap_pool_fills[OF p1 og, of E True] obtain s2 where
    w: "wrap_pool E origin POOLSIZE True s1 = Inr (s2, 0)" and f: "pool_filled s2"
    by blast
  have "add_loop E origin c 0 s0 = Inr s2"
    unfolding a using w p0 len by simp
  then have r: "add_randomness E c origin s = Inr s2"
    using lk by (simp add: add_randomness_def s0_def)
  from add_randomness_Inr(1)[OF r] f r show ?thesis by blast
qed

lemma fill_pool_ok:
  assumes lk: "pool_is_locked s" and sg: "slow_gather_fnc s"
    and fl: "pool_filled s \<or> (w_gather s = ([c], 0) # rest \<and> length c = POOLSIZE
               \<and> pool_writepos s = 0 \<and> pool_filled_counter s = 0 \<and> rndpool s = Some rp)"
  shows "\<exists>s'. fill_pool E s = Inr s' \<and> w_clock s' = w_clock s"
proof (cases "pool_filled s")
  case True
  then show ?thesis by (subst fill_pool.simps) simp
next
  case False
  with fl have g: "w_gather s = ([c], 0) # rest" and len: "length c = POOLSIZE"
    and w0: "pool_writepos s = 0" and c0: "pool_filled_counter s = 0" and rp: "rndpool s = Some rp"
    by simp_all
  define s1 where "s1 = s\<lparr>slowpolls := slowpolls s + 1,
      w_trace := w_trace s @ [(RANDOM_ORIGIN_SLOWPOLL, POOLSIZE div 5, GCRY_STRONG_RANDOM)],
      w_gather := rest\<rparr>"
  have p1: "pool_is_locked s1" "\<not> pool_filled s1" "pool_filled_counter s1 = 0"
    "pool_writepos s1 = 0" "rndpool s1 = Some rp" "w_clock s1 = w_clock s"
    using lk False c0 w0 rp by (simp_all add: s1_def)
  have og: "origin_value RANDOM_ORIGIN_SLOWPOLL \<le> origin_value RANDOM_ORIGIN_SLOWPOLL" by simp
  from add_randomness_fills[OF p1(1-5) len og, of E] obtain s2 where
    a: "add_randomness E c RANDOM_ORIGIN_SLOWPOLL s1 = Inr s2" and f: "pool_filled s2"
    and st: "acc_step RANDOM_ORIGIN_SLOWPOLL s1 s2"
    by blast
  have rpoll: "random_poll E s = Inr s2"
    using sg g a by (simp add: random_poll_def read_random_source_def Let_def s1_def)
  have "fill_pool E s2 = Inr s2" using f by (subst fill_pool.simps) simp
  then have "fill_pool E s = Inr s2" using False rpoll by (subst fill_pool.simps) simp
  moreover have "w_clock s2 = w_clock s" using acc_step_world(3)[OF st] p1(6) by simp
  ultimately show ?thesis by blast
qed

lemma do_fast_random_poll_ok:
  assumes lk: "pool_is_locked s" and tf: "\<not> e_timer_fails E (w_clock s)"
  shows "\<exists>s'. do_fast_random_poll E s = Inr s' \<and> w_clock s' = w_clock s + 1 \<and> pool_is_locked s'"
proof -
  define s1 where "s1 = s\<lparr>fastpolls := fastpolls s + 1, w_clock := w_clock s + 1\<rparr>"
  have p1: "pool_is_locked s1" "w_clock s1 = w_clock s + 1" "fast_gather_fnc s1 = fast_gather_fnc s"
    using lk by (simp_all add: s1_def)
  from deliver_ok[OF p1(1), of E RANDOM_ORIGIN_FASTPOLL
         "if fast_gather_fnc s1 then e_fast_gather E (w_clock s) else []"]
  obtain s2 where d1: "deliver E RANDOM_ORIGIN_FASTPOLL
         (if fast_gather_fnc s1 then e_fast_gather E (w_clock s) else []) s1 = Inr s2"
    by blast
  note w2 = acc_step_world[OF deliver_Inr[OF d1]]
  have lk2: "pool_is_locked s2" using w2(4) p1(1) by simp
  from deliver_ok[OF lk2, of E RANDOM_ORIGIN_FASTPOLL
         "e_timers E (w_clock s) @ [word_bytes 8 (e_time E (w_clock s)),
            word_bytes 8 (e_clock E (w_clock s))] @ e_hw_poll E (w_clock s)"]
  obtain s3 where d2: "deliver E RANDOM_ORIGIN_FASTPOLL
         (e_timers E (w_clock s) @ [word_bytes 8 (e_time E (w_clock s)),
            word_bytes 8 (e_clock E (w_clock s))] @ e_hw_poll E (w_clock s)) s2 = Inr s3"
    by blast
  note w3 = acc_step_world[OF deliver_Inr[OF d2]]
  have "do_fast_random_poll E s = Inr s3"
    unfolding do_fast_random_poll_def Let_def s1_def[symmetric]
    using lk tf d1 d2 by simp
  moreover have "w_clock s3 = w_clock s + 1" "pool_is_locked s3"
    using w3(3,4) w2(3,4) p1 by simp_all
  ultimately show ?thesis by blast
qed

lemma mix_pool_ok:
  assumes "pool_is_locked s"
  shows "\<exists>s'. mix_pool E w s = Inr s' \<and> pool_is_locked s' \<and> w_clock s' = w_clock s"
  using assms by (cases w) (simp_all add: mix_pool_def Let_def)

lemma derive_keypool_ok:
  assumes lk: "pool_is_locked s" and tf: "\<not> e_timer_fails E (w_clock s)"
  shows "\<exists>s'. derive_keypool E s = Inr s' \<and> w_clock s' = w_clock s + 1 \<and> pool_is_locked s'"
proof -
  from do_fast_random_poll_ok[OF lk tf] obtain s1 where
    f: "do_fast_random_poll E s = Inr s1" and p1: "w_clock s1 = w_clock s + 1" "pool_is_locked s1"
    by blast
  from add_randomness_ok[OF p1(2), of E "word_bytes 4 (my_pid s1)" RANDOM_ORIGIN_INIT]
  obtain s2 where a: "add_randomness E (word_bytes 4 (my_pid s1)) RANDOM_ORIGIN_INIT s1 = Inr s2"
    and st: "acc_step RANDOM_ORIGIN_INIT s1 s2"
    by blast
  have p2: "w_clock s2 = w_clock s + 1" "pool_is_locked s2"
    using acc_step_world(3,4)[OF st] p1 by simp_all
  have "\<exists>s3. (if \<not> just_mixed s2
            then bindf (mix_pool E RNDPOOL s2) (\<lambda>s'. Inr (s'\<lparr>mixrnd := mixrnd s' + 1\<rparr>))
            else Inr s2) = Inr s3 \<and> w_clock s3 = w_clock s + 1 \<and> pool_is_locked s3"
    using mix_pool_ok[OF p2(2), of E RNDPOOL] p2 by auto
  then obtain s3 where m3: "(if \<not> just_mixed s2
            then bindf (mix_pool E RNDPOOL s2) (\<lambda>s'. Inr (s'\<lparr>mixrnd := mixrnd s' + 1\<rparr>))
            else Inr s2) = Inr s3"
    and p3: "w_clock s3 = w_clock s + 1" "pool_is_locked s3"
    by blast
  define s3k where "s3k = s3\<lparr>keypool := Some (add_value_copy (the (keypool s3)) (the (rndpool s3)))\<rparr>"
  have p3k: "pool_is_locked s3k" "w_clock s3k = w_clock s + 1" using p3 by (simp_all add: s3k_def)
  from mix_pool_ok[OF p3k(1), of E RNDPOOL] obtain s4 where
    m4: "mix_pool E RNDPOOL s3k = Inr s4" and p4: "pool_is_locked s4" "w_clock s4 = w_clock s3k"
    by blast
  define s4m where "s4m = s4\<lparr>mixrnd := mixrnd s4 + 1\<rparr>"
  have p4m: "pool_is_locked s4m" "w_clock s4m = w_clock s + 1" using p4 p3k by (simp_all add: s4m_def)
  from mix_pool_ok[OF p4m(1), of E KEYPOOL] obtain s5 where
    m5: "mix_pool E KEYPOOL s4m = Inr s5" and p5: "pool_is_locked s5" "w_clock s5 = w_clock s4m"
    by blast
  have "derive_keypool E s = Inr (s5\<lparr>mixkey := mixkey s5 + 1\<rparr>)"
    unfolding derive_keypool_def
    by (simp only: f a m3 bindf_Inr s3k_def[symmetric] m4 s4m_def[symmetric] m5)
  then show ?thesis using p5 p4m by simp
qed

lemma read_pool_once_ok:
  assumes lk: "pool_is_locked s" and le: "len \<le> POOLSIZE"
    and lv: "level \<noteq> GCRY_VERY_STRONG_RANDOM"
    and sf: "seed_file_name s = None"
    and pid: "my_pid s = - 1 \<or> my_pid s = e_getpid E (w_clock s)"
    and sg: "slow_gather_fnc s"
    and fl: "pool_filled s \<or> (w_gather s = ([c], 0) # rest \<and> length c = POOLSIZE
               \<and> pool_writepos s = 0 \<and> pool_filled_counter s = 0 \<and> rndpool s = Some rp)"
    and tf: "\<not> e_timer_fails E (w_clock s + 1)"
  shows "\<exists>b' s'. read_pool_once E buffer p len level s =
           Inr (e_getpid E (w_clock s + 2) \<noteq> e_getpid E (w_clock s), b', p + len, s')"
proof -
  let ?pid = "e_getpid E (w_clock s)"
  define s1 where "s1 = s\<lparr>w_clock := w_clock s + 1, my_pid := ?pid\<rparr>"
  have fc: "fork_check_pre E s = Inr (?pid, s1)"
    using pid by (auto simp: fork_check_pre_def getpid_def Let_def s1_def)
  have p1: "pool_is_locked s1" "seed_file_name s1 = None" "slow_gather_fnc s1"
    "w_clock s1 = w_clock s + 1"
    "pool_filled s1 \<or> (w_gather s1 = ([c], 0) # rest \<and> length c = POOLSIZE
               \<and> pool_writepos s1 = 0 \<and> pool_filled_counter s1 = 0 \<and> rndpool s1 = Some rp)"
    using lk sf sg fl by (simp_all add: s1_def)
  have sd: "seed_on_demand E s1 = Inr s1"
    using p1(1,2) by (simp add: seed_on_demand_def read_seed_file_def)
  have ie: "initial_extra_seeding E len level s1 = Inr s1"
    using lv by (simp add: initial_extra_seeding_def)
  have es: "extra_seeding E len level s1 = Inr s1"
    using lv by (simp add: extra_seeding_def)
  from fill_pool_ok[OF p1(1,3,5), of E] obtain s5 where
    fp: "fill_pool E s1 = Inr s5" and c5: "w_clock s5 = w_clock s1"
    by blast
  have lk5: "pool_is_locked s5" using fill_pool_calm[OF fp] p1(1) by (simp add: calm_def)
  have tf5: "\<not> e_timer_fails E (w_clock s5)" using tf c5 p1(4) by simp
  from derive_keypool_ok[OF lk5 tf5] obtain s6 where
    dk: "derive_keypool E s5 = Inr s6" and p6: "w_clock s6 = w_clock s5 + 1" "pool_is_locked s6"
    by blast
  from deliver_bytes_shape[of buffer p len s6] obtain b' r bal where
    db: "deliver_bytes buffer p len s6 =
           (b', p + len, s6\<lparr>pool_readpos := r, pool_balance := bal,
              keypool := Some (memcpy (the (keypool s6)) 0 (replicate POOLSIZE 0))\<rparr>)"
    by blast
  define s7 where "s7 = s6\<lparr>pool_readpos := r, pool_balance := bal,
              keypool := Some (memcpy (the (keypool s6)) 0 (replicate POOLSIZE 0))\<rparr>"
  have p7: "w_clock s7 = w_clock s + 2" "pool_is_locked s7"
    using p6 c5 p1(4) by (simp_all add: s7_def)
  define s9 where "s9 = s7\<lparr>w_clock := w_clock s + 4\<rparr>"
  have lk9: "pool_is_locked s9" using p7 by (simp add: s9_def)
  from add_randomness_ok[OF lk9, of E "word_bytes 4 (e_getpid E (w_clock s + 3))" RANDOM_ORIGIN_INIT]
  obtain s10 where
    ar: "add_randomness E (word_bytes 4 (e_getpid E (w_clock s + 3))) RANDOM_ORIGIN_INIT s9 = Inr s10"
    by blast
  have g7: "getpid E s7 = (e_getpid E (w_clock s + 2), s7\<lparr>w_clock := w_clock s + 3\<rparr>)"
    using p7 by (simp add: getpid_def)
  have g8: "getpid E (s7\<lparr>w_clock := w_clock s + 3\<rparr>) = (e_getpid E (w_clock s + 3), s9)"
    by (simp add: getpid_def s9_def)
  have "read_pool_once E buffer p len level s =
          (if e_getpid E (w_clock s + 2) \<noteq> ?pid
           then Inr (True, b', p + len, s10\<lparr>just_mixed := False, my_pid := e_getpid E (w_clock s + 3)\<rparr>)
           else Inr (False, b', p + len, s7\<lparr>w_clock := w_clock s + 3\<rparr>))"
    unfolding read_pool_once_def
    using le p1(1)
    by (simp only: fc bindf_Inr prod.case sd ie es fp dk db[folded s7_def] g7 g8 ar
                   if_False if_True not_not linorder_not_less[symmetric] simp_thms)
  then show ?thesis by auto
qed

lemma fork_env_simps:
  "e_gather_module fork_env" "e_fast_module fork_env = False"
  "e_getpid fork_env k = (if k < 2 then 4711 else 4712)" "e_timer_fails fork_env k = False"
  "e_hash fork_env = const_prims"
  by (simp_all add: fork_env_def test_env_def)

lemma fill_state_simps:
  "pool_is_locked fill_state" "seed_file_name fill_state = None" "my_pid fill_state = - 1"
  "slow_gather_fnc fill_state" "w_gather fill_state = [([replicate POOLSIZE 0x5A], 0)]"
  "pool_writepos fill_state = 0" "pool_filled_counter fill_state = 0"
  "rndpool fill_state = Some (replicate (POOLSIZE + BLOCKLEN) 0)" "w_clock fill_state = 0"
  "key_ok fill_state" "quick_test fill_state = False"
  by (simp_all add: fill_state_def locked_state_simps key_ok_def)
     (simp_all add: locked_state_def init_state_def)

lemma read_pool_once_fill:
  assumes "\<not> e_timer_fails E 1"
  shows "\<exists>b' s'. read_pool_once E buffer p 32 GCRY_STRONG_RANDOM
                    (fill_state\<lparr>getbytes1 := g, ngetbytes1 := n\<rparr>)
                  = Inr (e_getpid E 2 \<noteq> e_getpid E 0, b', p + 32, s')"
proof -
  let ?s = "fill_state\<lparr>getbytes1 := g, ngetbytes1 := n\<rparr>"
  have "\<exists>b' s'. read_pool_once E buffer p 32 GCRY_STRONG_RANDOM ?s =
           Inr (e_getpid E (w_clock ?s + 2) \<noteq> e_getpid E (w_clock ?s), b', p + 32, s')"
    by (rule read_pool_once_ok[where c = "replicate POOLSIZE 0x5A" and rest = "[]"
                                 and rp = "replicate (POOLSIZE + BLOCKLEN) 0"])
       (use assms in \<open>simp_all add: fill_state_simps\<close>)
  moreover have "w_clock ?s = 0" by (simp add: fill_state_simps)
  ultimately show ?thesis by (simp only: add_0)
qed

lemma read_pool_fill_test:
  "\<exists>b' s'. read_pool test_env buffer p 32 GCRY_STRONG_RANDOM
              (fill_state\<lparr>getbytes1 := g, ngetbytes1 := n\<rparr>) = Inr (b', s')"
proof -
  have t: "\<not> e_timer_fails test_env 1" by (simp add: test_env_simps)
  from read_pool_once_fill[OF t, where buffer = buffer and p = p and g = g and n = n] obtain b' s' where
    "read_pool_once test_env buffer p 32 GCRY_STRONG_RANDOM
        (fill_state\<lparr>getbytes1 := g, ngetbytes1 := n\<rparr>) = Inr (False, b', p + 32, s')"
    by (auto simp: test_env_simps)
  then show ?thesis
    by (simp add: read_pool_def read_pool_retry_eq fill_state_simps)
qed

lemma read_pool_fill_fork:
  "read_pool fork_env buffer p 32 GCRY_STRONG_RANDOM
     (fill_state\<lparr>getbytes1 := g, ngetbytes1 := n\<rparr>) = Inl Log_bug_too_many_random_bits"
proof -
  have t: "\<not> e_timer_fails fork_env 1" by (simp add: fork_env_simps)
  from read_pool_once_fill[OF t, where buffer = buffer and p = p and g = g and n = n] obtain b' s' where
    "read_pool_once fork_env buffer p 32 GCRY_STRONG_RANDOM
        (fill_state\<lparr>getbytes1 := g, ngetbytes1 := n\<rparr>) = Inr (True, b', p + 32, s')"
    by (auto simp: fork_env_simps)
  then show ?thesis
    by (simp add: read_pool_def read_pool_retry_eq fill_state_simps)
qed

lemma fill_state_same: "fill_state\<lparr>getbytes1 := getbytes1 fill_state, ngetbytes1 := ngetbytes1 fill_state\<rparr> = fill_state"
  by simp

lemma initialize_fresh_state:
  "initialize test_env fresh_state = Inr (unlock_pool fill_state)"
  "initialize fork_env fresh_state = Inr (unlock_pool fill_state)"
  by (simp_all add: initialize_def initialize_basics_def lock_pool_def unlock_pool_def Let_def
                    init_state_def fresh_state_def fill_state_def locked_state_def
                    test_env_simps fork_env_simps)

lemma randomize_start:
  assumes "initialize E fresh_state = Inr (unlock_pool fill_state)"
  shows "rngcsprng_randomize E buffer 32 GCRY_STRONG_RANDOM fresh_state =
     bindf (randomize_loop E buffer 0 32 GCRY_STRONG_RANDOM
              (fill_state\<lparr>getbytes1 := 32, ngetbytes1 := 1\<rparr>))
       (\<lambda>(buffer', s4). Inr (buffer', unlock_pool s4))"
proof -
  have l: "(1::nat) AND 3 = 1" by simp
  have s: "lock_pool (unlock_pool fill_state) = fill_state"
    by (simp add: lock_pool_def unlock_pool_def fill_state_def locked_state_def)
  have g: "getbytes1 fill_state = 0" "ngetbytes1 fill_state = 0"
    by (simp_all add: fill_state_def locked_state_def init_state_def)
  show ?thesis
    unfolding rngcsprng_randomize_def assms bindf_Inr Let_def
    by (simp add: l s g fill_state_simps)
qed

lemma randomize_loop_eq:
  "randomize_loop E buffer p len level s =
     (if len = 0 then Inr (buffer, s)
      else bindf (read_pool E buffer p (min len POOLSIZE) level s)
             (\<lambda>(buffer', s'). randomize_loop E buffer' (p + min len POOLSIZE)
                                 (len - min len POOLSIZE) level s'))"
  by (subst randomize_loop.simps)
     (auto simp: Let_def min_def bindf_def split: sum.splits)

section \<open>The first extraction at level 2\<close>

lemma read_pool_once_first:
  assumes o: "read_pool_once E buffer p len GCRY_VERY_STRONG_RANDOM s = Inr (False, b', p', s')"
    and nd: "\<not> did_initial_extra_seeding s"
  shows "\<exists>pid s1 s2 sg.
             fork_check_pre E s = Inr (pid, s1) \<and> seed_on_demand E s1 = Inr s2
           \<and> read_random_source E RANDOM_ORIGIN_EXTRAPOLL (max len 16) GCRY_VERY_STRONG_RANDOM
                 (s2\<lparr>pool_balance := 0\<rparr>) = Inr sg
           \<and> initial_extra_seeding E len GCRY_VERY_STRONG_RANDOM s2
                 = Inr (sg\<lparr>pool_balance := int (max len 16), did_initial_extra_seeding := True\<rparr>)"
    and "take (length (w_trace s)) (w_trace s') = w_trace s"
    and "extra_requests (drop (length (w_trace s)) (w_trace s'))
           = [(RANDOM_ORIGIN_EXTRAPOLL, max len 16, GCRY_VERY_STRONG_RANDOM)]"
    and "pool_balance s' = int (max len 16) - int len"
    and "did_initial_extra_seeding s'"
proof -
  from read_pool_once_decompose[OF o] obtain pid s1 s2 s3 s4 s5 s6 where
    f1: "fork_check_pre E s = Inr (pid, s1)" and le: "len \<le> POOLSIZE"
    and f2: "seed_on_demand E s1 = Inr s2"
    and f3: "initial_extra_seeding E len GCRY_VERY_STRONG_RANDOM s2 = Inr s3"
    and f4: "extra_seeding E len GCRY_VERY_STRONG_RANDOM s3 = Inr s4" and f5: "fill_pool E s4 = Inr s5"
    and f6: "derive_keypool E s5 = Inr s6"
    and f7: "(case deliver_bytes buffer p len s6 of
              (buffer', p', s7) \<Rightarrow>
                (case getpid E s7 of
                   (pid', s8) \<Rightarrow>
                     (if pid' \<noteq> pid
                      then (case getpid E s8 of
                              (x, s9) \<Rightarrow>
                                bindf (add_randomness E (word_bytes 4 x) RANDOM_ORIGIN_INIT s9)
                                  (\<lambda>s10. Inr (True, buffer', p',
                                                s10\<lparr>just_mixed := False, my_pid := x\<rparr>)))
                      else Inr (False, buffer', p', s8)))) = Inr (False, b', p', s')"
    by blast
  have sz: "len \<le> SIZE_MAX" using le by simp
  have q02: "quiet s s2"
    using fork_check_pre_quiet[OF f1] seed_on_demand_quiet[OF f2] by (rule quiet_trans)
  then obtain t1 where t1: "w_trace s2 = w_trace s @ t1" "extra_requests t1 = []"
    and nd2: "\<not> did_initial_extra_seeding s2"
    using nd unfolding quiet_iff by auto
  note i3 = initial_extra_seeding_Inr[OF nd2 sz f3]
  from f3 le obtain sg where
    rs: "read_random_source E RANDOM_ORIGIN_EXTRAPOLL (max len 16) GCRY_VERY_STRONG_RANDOM
                 (s2\<lparr>pool_balance := 0\<rparr>) = Inr sg"
    and e3: "s3 = sg\<lparr>pool_balance := int (max len 16), did_initial_extra_seeding := True\<rparr>"
    unfolding initial_extra_seeding_eq[OF nd2 sz] by (auto simp: bindf_eq_Inr)
  show "\<exists>pid s1 s2 sg.
             fork_check_pre E s = Inr (pid, s1) \<and> seed_on_demand E s1 = Inr s2
           \<and> read_random_source E RANDOM_ORIGIN_EXTRAPOLL (max len 16) GCRY_VERY_STRONG_RANDOM
                 (s2\<lparr>pool_balance := 0\<rparr>) = Inr sg
           \<and> initial_extra_seeding E len GCRY_VERY_STRONG_RANDOM s2
                 = Inr (sg\<lparr>pool_balance := int (max len 16), did_initial_extra_seeding := True\<rparr>)"
    using f1 f2 rs f3 e3 by blast
  have e4: "s4 = s3" using f4 extra_seeding_skip[OF sz i3(2), of E GCRY_VERY_STRONG_RANDOM] by simp
  have q36: "quiet s3 s6"
    using fill_pool_quiet[OF f5] derive_keypool_quiet[OF f6] unfolding e4 by (rule quiet_trans)
  then obtain t2 where t2: "w_trace s6 = w_trace s3 @ t2" "extra_requests t2 = []"
    and b6: "pool_balance s6 = int (max len 16)" and d6: "did_initial_extra_seeding s6"
    using i3 unfolding quiet_iff by auto
  from deliver_bytes_balance[of buffer p len s6] obtain bb s7 where
    db: "deliver_bytes buffer p len s6 = (bb, p + len, s7)"
    and b7: "pool_balance s7 = (if pool_balance s6 - int len < 0 then 0 else pool_balance s6 - int len)"
    and w7: "w_trace s7 = w_trace s6" and d7: "did_initial_extra_seeding s7 = did_initial_extra_seeding s6"
    by blast
  have e: "s' = s7\<lparr>w_clock := w_clock s7 + 1\<rparr>"
    using f7 unfolding db prod.case getpid_def
    by (auto simp: bindf_eq_Inr split: if_splits)
  have tr: "w_trace s' = w_trace s @ (t1 @ [(RANDOM_ORIGIN_EXTRAPOLL, max len 16, GCRY_VERY_STRONG_RANDOM)] @ t2)"
    using e w7 t2(1) i3(1) t1(1) by simp
  show "take (length (w_trace s)) (w_trace s') = w_trace s"
    unfolding tr by simp
  show "extra_requests (drop (length (w_trace s)) (w_trace s'))
           = [(RANDOM_ORIGIN_EXTRAPOLL, max len 16, GCRY_VERY_STRONG_RANDOM)]"
    unfolding tr using t1(2) t2(2) by (simp add: extra_requests_append) (simp add: extra_requests_def)
  show "pool_balance s' = int (max len 16) - int len"
    using e b7 b6 by simp
  show "did_initial_extra_seeding s'" using e d7 d6 by simp
qed

lemma read_pool_once_first_ok:
  assumes lk: "pool_is_locked s" and le: "len \<le> POOLSIZE"
    and sf: "seed_file_name s = None"
    and pid: "my_pid s = - 1 \<or> my_pid s = e_getpid E (w_clock s)"
    and sg: "slow_gather_fnc s" and nd: "\<not> did_initial_extra_seeding s"
    and g: "w_gather s = ([c], 0) # rest" and lc: "length c = POOLSIZE"
    and w0: "pool_writepos s = 0" and c0: "pool_filled_counter s = 0"
    and rp: "rndpool s = Some rp" and nf: "\<not> pool_filled s"
    and tf: "\<not> e_timer_fails E (w_clock s + 1)"
  shows "\<exists>b' s'. read_pool_once E buffer p len GCRY_VERY_STRONG_RANDOM s =
           Inr (e_getpid E (w_clock s + 2) \<noteq> e_getpid E (w_clock s), b', p + len, s')"
proof -
  let ?pid = "e_getpid E (w_clock s)"
  define s1 where "s1 = s\<lparr>w_clock := w_clock s + 1, my_pid := ?pid\<rparr>"
  have fc: "fork_check_pre E s = Inr (?pid, s1)"
    using pid by (auto simp: fork_check_pre_def getpid_def Let_def s1_def)
  have p1: "pool_is_locked s1" "seed_file_name s1 = None" "slow_gather_fnc s1"
    "w_clock s1 = w_clock s + 1" "\<not> did_initial_extra_seeding s1" "\<not> pool_filled s1"
    using lk sf sg nd nf by (simp_all add: s1_def)
  have sd: "seed_on_demand E s1 = Inr s1"
    using p1(1,2) by (simp add: seed_on_demand_def read_seed_file_def)
  define s1g where "s1g = s1\<lparr>pool_balance := 0,
      w_trace := w_trace s1 @ [(RANDOM_ORIGIN_EXTRAPOLL, max len 16, GCRY_VERY_STRONG_RANDOM)],
      w_gather := rest\<rparr>"
  have pg: "pool_is_locked s1g" "\<not> pool_filled s1g" "pool_filled_counter s1g = 0"
    "pool_writepos s1g = 0" "rndpool s1g = Some rp" "w_clock s1g = w_clock s + 1"
    using lk nf c0 w0 rp by (simp_all add: s1g_def s1_def)
  have og: "origin_value RANDOM_ORIGIN_SLOWPOLL \<le> origin_value RANDOM_ORIGIN_EXTRAPOLL" by simp
  from add_randomness_fills[OF pg(1-5) lc og, of E] obtain sg' where
    a: "add_randomness E c RANDOM_ORIGIN_EXTRAPOLL s1g = Inr sg'" and f: "pool_filled sg'"
    and st: "acc_step RANDOM_ORIGIN_EXTRAPOLL s1g sg'"
    by blast
  have rs: "read_random_source E RANDOM_ORIGIN_EXTRAPOLL (max len 16) GCRY_VERY_STRONG_RANDOM
              (s1\<lparr>pool_balance := 0\<rparr>) = Inr sg'"
    using sg g a by (simp add: read_random_source_def Let_def s1g_def s1_def)
  define s3 where "s3 = sg'\<lparr>pool_balance := int (max len 16), did_initial_extra_seeding := True\<rparr>"
  have sz: "len \<le> SIZE_MAX" using le by simp
  have ie: "initial_extra_seeding E len GCRY_VERY_STRONG_RANDOM s1 = Inr s3"
    unfolding initial_extra_seeding_eq[OF p1(5) sz] using le rs by (simp add: s3_def)
  have p3: "pool_is_locked s3" "pool_filled s3" "w_clock s3 = w_clock s + 1"
    "pool_balance s3 = int (max len 16)"
    using acc_step_world(3,4)[OF st] pg f by (simp_all add: s3_def)
  have es: "extra_seeding E len GCRY_VERY_STRONG_RANDOM s3 = Inr s3"
    by (rule extra_seeding_skip[OF sz p3(4)])
  have fp: "fill_pool E s3 = Inr s3" using p3(2) by (subst fill_pool.simps) simp
  have tf3: "\<not> e_timer_fails E (w_clock s3)" using tf p3(3) by simp
  from derive_keypool_ok[OF p3(1) tf3] obtain s6 where
    dk: "derive_keypool E s3 = Inr s6" and p6: "w_clock s6 = w_clock s3 + 1" "pool_is_locked s6"
    by blast
  from deliver_bytes_shape[of buffer p len s6] obtain b' r bal where
    db: "deliver_bytes buffer p len s6 =
           (b', p + len, s6\<lparr>pool_readpos := r, pool_balance := bal,
              keypool := Some (memcpy (the (keypool s6)) 0 (replicate POOLSIZE 0))\<rparr>)"
    by blast
  define s7 where "s7 = s6\<lparr>pool_readpos := r, pool_balance := bal,
              keypool := Some (memcpy (the (keypool s6)) 0 (replicate POOLSIZE 0))\<rparr>"
  have p7: "w_clock s7 = w_clock s + 2" "pool_is_locked s7"
    using p6 p3(3) by (simp_all add: s7_def)
  define s9 where "s9 = s7\<lparr>w_clock := w_clock s + 4\<rparr>"
  have lk9: "pool_is_locked s9" using p7 by (simp add: s9_def)
  from add_randomness_ok[OF lk9, of E "word_bytes 4 (e_getpid E (w_clock s + 3))" RANDOM_ORIGIN_INIT]
  obtain s10 where
    ar: "add_randomness E (word_bytes 4 (e_getpid E (w_clock s + 3))) RANDOM_ORIGIN_INIT s9 = Inr s10"
    by blast
  have g7: "getpid E s7 = (e_getpid E (w_clock s + 2), s7\<lparr>w_clock := w_clock s + 3\<rparr>)"
    using p7 by (simp add: getpid_def)
  have g8: "getpid E (s7\<lparr>w_clock := w_clock s + 3\<rparr>) = (e_getpid E (w_clock s + 3), s9)"
    by (simp add: getpid_def s9_def)
  have "read_pool_once E buffer p len GCRY_VERY_STRONG_RANDOM s =
          (if e_getpid E (w_clock s + 2) \<noteq> ?pid
           then Inr (True, b', p + len, s10\<lparr>just_mixed := False, my_pid := e_getpid E (w_clock s + 3)\<rparr>)
           else Inr (False, b', p + len, s7\<lparr>w_clock := w_clock s + 3\<rparr>))"
    unfolding read_pool_once_def
    using le p1(1)
    by (simp only: fc bindf_Inr prod.case sd ie es fp dk db[folded s7_def] g7 g8 ar
                   if_False if_True not_not linorder_not_less[symmetric] simp_thms)
  then show ?thesis by auto
qed

lemma fill_state_first:
  "\<not> did_initial_extra_seeding fill_state" "w_trace fill_state = []" "\<not> pool_filled fill_state"
  by (simp_all add: fill_state_def locked_state_simps)

lemma read_pool_first_test:
  "\<exists>b' s'. read_pool test_env buffer p POOLSIZE GCRY_VERY_STRONG_RANDOM fill_state = Inr (b', s')"
proof -
  have "\<exists>b' s'. read_pool_once test_env buffer p POOLSIZE GCRY_VERY_STRONG_RANDOM fill_state =
           Inr (e_getpid test_env (w_clock fill_state + 2) \<noteq> e_getpid test_env (w_clock fill_state),
                b', p + POOLSIZE, s')"
    by (rule read_pool_once_first_ok[where c = "replicate POOLSIZE 0x5A" and rest = "[]"
                                       and rp = "replicate (POOLSIZE + BLOCKLEN) 0"])
       (simp_all add: fill_state_simps fill_state_first test_env_simps)
  then obtain b' s' where
    "read_pool_once test_env buffer p POOLSIZE GCRY_VERY_STRONG_RANDOM fill_state
        = Inr (False, b', p + POOLSIZE, s')"
    by (auto simp: test_env_simps)
  then show ?thesis
    by (simp add: read_pool_def read_pool_retry_eq fill_state_simps)
qed

text \<open>
  C4. An extraction at level \<open>VERY_STRONG\<close> that starts with
  \<^verbatim>\<open>did_initial_extra_seeding\<close> false. When \<open>max len 16\<close> exceeds
  \<^verbatim>\<open>POOLSIZE\<close>, \<^verbatim>\<open>read_pool\<close> does not return: the process ends. When
  \<^verbatim>\<open>read_pool\<close> returns, it has, after the fork check and the reading of the
  seed file, set \<^verbatim>\<open>pool_balance\<close> to 0, asked the slow gatherer for
  \<open>max len 16\<close> bytes with origin \<open>EXTRAPOLL\<close> at level \<open>VERY_STRONG\<close>,
  and with their delivery set \<^verbatim>\<open>pool_balance\<close> to \<open>max len 16\<close> and
  \<^verbatim>\<open>did_initial_extra_seeding\<close> to true. This is the one request with origin
  \<open>EXTRAPOLL\<close> that the call has added to the requests made before; at the
  return the flag is true and \<^verbatim>\<open>pool_balance\<close> is
  \<open>max len 16 - len\<close>, the read-out having taken \<open>len\<close> from it.
\<close>

theorem read_pool_first_very_strong:
  assumes "\<not> did_initial_extra_seeding s"
  shows "(POOLSIZE < max len 16 \<longrightarrow> isl (read_pool E buffer p len GCRY_VERY_STRONG_RANDOM s))
   \<and> (\<forall>buffer' s'. read_pool E buffer p len GCRY_VERY_STRONG_RANDOM s = Inr (buffer', s') \<longrightarrow>
        (\<exists>pid s1 s2 sg.
             fork_check_pre E s = Inr (pid, s1) \<and> seed_on_demand E s1 = Inr s2
           \<and> read_random_source E RANDOM_ORIGIN_EXTRAPOLL (max len 16) GCRY_VERY_STRONG_RANDOM
                 (s2\<lparr>pool_balance := 0\<rparr>) = Inr sg
           \<and> initial_extra_seeding E len GCRY_VERY_STRONG_RANDOM s2
                 = Inr (sg\<lparr>pool_balance := int (max len 16), did_initial_extra_seeding := True\<rparr>))
        \<and> take (length (w_trace s)) (w_trace s') = w_trace s
        \<and> extra_requests (drop (length (w_trace s)) (w_trace s'))
             = [(RANDOM_ORIGIN_EXTRAPOLL, max len 16, GCRY_VERY_STRONG_RANDOM)]
        \<and> pool_balance s' = int (max len 16) - int len
        \<and> did_initial_extra_seeding s')"
proof (intro conjI impI allI)
  assume big: "POOLSIZE < max len 16"
  show "isl (read_pool E buffer p len GCRY_VERY_STRONG_RANDOM s)"
  proof (cases "read_pool E buffer p len GCRY_VERY_STRONG_RANDOM s")
    case (Inl e)
    then show ?thesis by simp
  next
    case (Inr r)
    obtain b' s' where r: "r = (b', s')" by (cases r)
    from read_pool_Inr[OF Inr[unfolded r]] obtain p' where
      "read_pool_once E buffer p len GCRY_VERY_STRONG_RANDOM s = Inr (False, b', p', s')" by blast
    from read_pool_once_Inr(1)[OF this] big show ?thesis by simp
  qed
next
  fix buffer' s'
  assume r: "read_pool E buffer p len GCRY_VERY_STRONG_RANDOM s = Inr (buffer', s')"
  from read_pool_Inr[OF r] obtain p' where
    o: "read_pool_once E buffer p len GCRY_VERY_STRONG_RANDOM s = Inr (False, buffer', p', s')"
    by blast
  note f = read_pool_once_first[OF o assms]
  show "\<exists>pid s1 s2 sg.
             fork_check_pre E s = Inr (pid, s1) \<and> seed_on_demand E s1 = Inr s2
           \<and> read_random_source E RANDOM_ORIGIN_EXTRAPOLL (max len 16) GCRY_VERY_STRONG_RANDOM
                 (s2\<lparr>pool_balance := 0\<rparr>) = Inr sg
           \<and> initial_extra_seeding E len GCRY_VERY_STRONG_RANDOM s2
                 = Inr (sg\<lparr>pool_balance := int (max len 16), did_initial_extra_seeding := True\<rparr>)"
    by (rule f(1))
  show "take (length (w_trace s)) (w_trace s') = w_trace s" by (rule f(2))
  show "extra_requests (drop (length (w_trace s)) (w_trace s'))
             = [(RANDOM_ORIGIN_EXTRAPOLL, max len 16, GCRY_VERY_STRONG_RANDOM)]" by (rule f(3))
  show "pool_balance s' = int (max len 16) - int len" by (rule f(4))
  show "did_initial_extra_seeding s'" by (rule f(5))
qed

theorem read_pool_first_very_strong_witness:
  "\<not> did_initial_extra_seeding fill_state
   \<and> (\<exists>b' s'. read_pool test_env (replicate POOLSIZE 0) 0 POOLSIZE GCRY_VERY_STRONG_RANDOM fill_state
                 = Inr (b', s')
         \<and> extra_requests (w_trace s')
             = [(RANDOM_ORIGIN_EXTRAPOLL, POOLSIZE, GCRY_VERY_STRONG_RANDOM)]
         \<and> pool_balance s' = 0 \<and> did_initial_extra_seeding s')
   \<and> isl (read_pool test_env (replicate 601 0) 0 601 GCRY_VERY_STRONG_RANDOM fill_state)"
proof -
  have nd: "\<not> did_initial_extra_seeding fill_state" by (rule fill_state_first(1))
  from read_pool_first_test[of "replicate POOLSIZE 0" 0] obtain b' s' where
    r: "read_pool test_env (replicate POOLSIZE 0) 0 POOLSIZE GCRY_VERY_STRONG_RANDOM fill_state
          = Inr (b', s')"
    by blast
  from read_pool_first_very_strong[OF nd, of POOLSIZE test_env "replicate POOLSIZE 0" 0] r
  have "extra_requests (w_trace s') = [(RANDOM_ORIGIN_EXTRAPOLL, POOLSIZE, GCRY_VERY_STRONG_RANDOM)]
         \<and> pool_balance s' = 0 \<and> did_initial_extra_seeding s'"
    by (simp add: fill_state_first)
  moreover have "isl (read_pool test_env (replicate 601 0) 0 601 GCRY_VERY_STRONG_RANDOM fill_state)"
    using read_pool_first_very_strong[OF nd, of 601 test_env "replicate 601 0" 0] by simp
  ultimately show ?thesis using nd r by blast
qed


section \<open>The cursors at the release of the lock\<close>

lemma calm_cursor: "calm s s' \<Longrightarrow> cursor_inv s \<Longrightarrow> cursor_inv s'"
  by (simp add: calm_def cursor_inv_def)

lemma read_pool_cursor:
  assumes "read_pool E buffer p len level s = Inr (b', s')" and "cursor_inv s"
  shows "cursor_inv s'"
proof -
  from read_pool_Inr[OF assms(1)] obtain p' where
    "read_pool_once E buffer p len level s = Inr (False, b', p', s')" by blast
  from read_pool_once_Inr(4)[OF this assms(2)] show ?thesis .
qed

lemma randomize_loop_cursor:
  "randomize_loop E buffer p len level s = Inr (b', s') \<Longrightarrow> cursor_inv s \<Longrightarrow> cursor_inv s'"
proof (induction E buffer p len level s rule: randomize_loop.induct)
  case (1 E buffer p len level s)
  show ?case
  proof (cases "len > 0")
    case False
    then show ?thesis using 1(2,3) by (subst (asm) randomize_loop.simps) simp
  next
    case True
    let ?n = "if len > POOLSIZE then POOLSIZE else len"
    from 1(2) True obtain b1 s1 where
      r: "read_pool E buffer p ?n level s = Inr (b1, s1)"
      and l: "randomize_loop E b1 (p + ?n) (len - ?n) level s1 = Inr (b', s')"
      by (subst (asm) randomize_loop.simps) (auto simp: Let_def split: sum.splits)
    have c1: "cursor_inv s1" by (rule read_pool_cursor[OF r 1(3)])
    show ?thesis
      by (rule 1(1)[OF True refl r refl l c1])
  qed
qed

lemma randomize_cursor:
  assumes "rngcsprng_randomize E buffer len level s = Inr (b', s')" and "cursor_inv s"
  shows "cursor_inv s'"
proof -
  from assms(1) obtain s1 where i: "initialize E s = Inr s1"
    by (auto simp: rngcsprng_randomize_def bindf_eq_Inr)
  have c1: "cursor_inv s1"
    using i assms(2)
    by (auto simp: initialize_def initialize_basics_def lock_pool_def unlock_pool_def Let_def
                   cursor_inv_def split: if_splits)
  let ?lv = "(if quick_test s1 \<and> level > GCRY_STRONG_RANDOM then GCRY_STRONG_RANDOM else level) AND 3"
  let ?s2 = "lock_pool s1"
  let ?s3 = "(if ?lv \<ge> GCRY_VERY_STRONG_RANDOM
                  then ?s2\<lparr>getbytes2 := getbytes2 ?s2 + of_nat len,
                          ngetbytes2 := ngetbytes2 ?s2 + 1\<rparr>
                  else ?s2\<lparr>getbytes1 := getbytes1 ?s2 + of_nat len,
                          ngetbytes1 := ngetbytes1 ?s2 + 1\<rparr>)"
  from assms(1) i obtain s4 where
    l: "randomize_loop E buffer 0 len ?lv ?s3 = Inr (b', s4)" and e: "s' = unlock_pool s4"
    by (auto simp: rngcsprng_randomize_def Let_def bindf_eq_Inr)
  have "cursor_inv ?s3" using c1 by (simp add: cursor_inv_def lock_pool_def)
  from randomize_loop_cursor[OF l this] show ?thesis
    using e by (simp add: cursor_inv_def unlock_pool_def)
qed

lemma add_bytes_step_cursor:
  assumes "add_bytes_step E piece s = Inr s'" and "cursor_inv s"
  shows "cursor_inv s'" and "\<not> pool_is_locked s'"
  using assms
  by (auto simp: add_bytes_step_def Let_def bindf_eq_Inr lock_pool_def unlock_pool_def
                 cursor_inv_def calm_def split: if_splits dest!: add_randomness_calm)

lemma add_bytes_loop_cursor:
  "add_bytes_loop E buf s = Inr s' \<Longrightarrow> cursor_inv s \<Longrightarrow> cursor_inv s'"
proof (induction E buf s rule: add_bytes_loop.induct)
  case (1 E buf s)
  show ?case
  proof (cases "length buf \<noteq> 0")
    case False
    then show ?thesis using 1(2,3) by (subst (asm) add_bytes_loop.simps) simp
  next
    case True
    let ?n = "if length buf > POOLSIZE then POOLSIZE else length buf"
    from 1(2) True obtain s1 where
      a: "add_bytes_step E (take ?n buf) s = Inr s1"
      and l: "add_bytes_loop E (drop ?n buf) s1 = Inr s'"
      by (subst (asm) add_bytes_loop.simps) (auto simp: Let_def split: sum.splits)
    have c1: "cursor_inv s1" by (rule add_bytes_step_cursor(1)[OF a 1(3)])
    show ?thesis
      by (rule 1(1)[OF True refl a l c1])
  qed
qed

lemma add_bytes_cursor:
  assumes "rngcsprng_add_bytes E buf quality s = Inr (rc, s')" and "cursor_inv s"
  shows "cursor_inv s'"
proof (cases buf)
  case None
  then show ?thesis using assms by (simp add: rngcsprng_add_bytes_def)
next
  case (Some bytes)
  show ?thesis
  proof (cases "length bytes = 0 \<or> normalize_quality quality < 10")
    case True
    then show ?thesis using assms Some by (auto simp: rngcsprng_add_bytes_def Let_def)
  next
    case False
    with assms Some have "add_bytes_loop E bytes (initialize_basics s) = Inr s'"
      by (auto simp: rngcsprng_add_bytes_def Let_def bindf_eq_Inr)
    moreover have "cursor_inv (initialize_basics s)"
      using assms(2) by (simp add: initialize_basics_def cursor_inv_def)
    ultimately show ?thesis by (rule add_bytes_loop_cursor)
  qed
qed

lemma mix_pool_cursor:
  "mix_pool E w s = Inr s' \<Longrightarrow> pool_writepos s' = pool_writepos s \<and> pool_readpos s' = pool_readpos s
      \<and> pool_is_locked s' = pool_is_locked s"
  by (auto simp: mix_pool_def Let_def split: if_splits pool_id.splits)

lemma update_seed_file_cursor:
  assumes "update_seed_file E s = Inr s'" and "cursor_inv s"
  shows "cursor_inv s'"
proof -
  define s1 where "s1 = lock_pool (initialize_basics s)"
  have c1: "pool_writepos s1 = pool_writepos s" "pool_readpos s1 = pool_readpos s"
    by (simp_all add: s1_def lock_pool_def initialize_basics_def)
  show ?thesis
  proof (cases "seed_file_name s1 = None \<or> rndpool s1 = None \<or> \<not> pool_filled s1
                  \<or> \<not> allow_seed_file_update s1")
    case True
    then have "s' = unlock_pool s1"
      using assms(1) unfolding update_seed_file_def s1_def[symmetric] Let_def
      by (auto split: if_splits)
    then show ?thesis using assms(2) c1 by (simp add: cursor_inv_def unlock_pool_def)
  next
    case False
    define s2 where "s2 = s1\<lparr>keypool := Some (add_value_copy (the (keypool s1)) (the (rndpool s1)))\<rparr>"
    from False assms(1) have
      e: "bindf (mix_pool E RNDPOOL s2) (\<lambda>s3.
            bindf (mix_pool E KEYPOOL (s3\<lparr>mixrnd := mixrnd s3 + 1\<rparr>)) (\<lambda>s4.
              Inr (unlock_pool
                     (s4\<lparr>mixkey := mixkey s4 + 1,
                         w_seed_file := write_seed_file (e_seed_write E)
                            (the (keypool (s4\<lparr>mixkey := mixkey s4 + 1\<rparr>)))
                            (w_seed_file (s4\<lparr>mixkey := mixkey s4 + 1\<rparr>))\<rparr>)))) = Inr s'"
      unfolding update_seed_file_def s1_def[symmetric] Let_def s2_def[symmetric]
      by (simp split: if_splits)
    from e obtain s3 where m1: "mix_pool E RNDPOOL s2 = Inr s3"
      and e2: "bindf (mix_pool E KEYPOOL (s3\<lparr>mixrnd := mixrnd s3 + 1\<rparr>)) (\<lambda>s4.
              Inr (unlock_pool
                     (s4\<lparr>mixkey := mixkey s4 + 1,
                         w_seed_file := write_seed_file (e_seed_write E)
                            (the (keypool (s4\<lparr>mixkey := mixkey s4 + 1\<rparr>)))
                            (w_seed_file (s4\<lparr>mixkey := mixkey s4 + 1\<rparr>))\<rparr>))) = Inr s'"
      unfolding bindf_eq_Inr[of "mix_pool E RNDPOOL s2"] by blast
    from e2 obtain s4 where m2: "mix_pool E KEYPOOL (s3\<lparr>mixrnd := mixrnd s3 + 1\<rparr>) = Inr s4"
      and e3: "s' = unlock_pool
                     (s4\<lparr>mixkey := mixkey s4 + 1,
                         w_seed_file := write_seed_file (e_seed_write E)
                            (the (keypool (s4\<lparr>mixkey := mixkey s4 + 1\<rparr>)))
                            (w_seed_file (s4\<lparr>mixkey := mixkey s4 + 1\<rparr>))\<rparr>)"
      unfolding bindf_eq_Inr[of "mix_pool E KEYPOOL (s3\<lparr>mixrnd := mixrnd s3 + 1\<rparr>)"] by auto
    have "pool_writepos s' = pool_writepos s4" "pool_readpos s' = pool_readpos s4"
      unfolding e3 by (simp_all add: unlock_pool_def)
    moreover have "pool_writepos s4 = pool_writepos s3" "pool_readpos s4 = pool_readpos s3"
      using mix_pool_cursor[OF m2] by simp_all
    moreover have "pool_writepos s3 = pool_writepos s1" "pool_readpos s3 = pool_readpos s1"
      using mix_pool_cursor[OF m1] by (simp_all add: s2_def)
    ultimately show ?thesis using assms(2) c1 by (simp add: cursor_inv_def)
  qed
qed

lemma fast_poll_cursor:
  assumes "rngcsprng_fast_poll E s = Inr s'" and "cursor_inv s"
  shows "cursor_inv s'"
  using assms
  by (auto simp: rngcsprng_fast_poll_def Let_def bindf_eq_Inr lock_pool_def unlock_pool_def
                 initialize_basics_def cursor_inv_def calm_def
           split: if_splits dest!: do_fast_random_poll_calm)

lemma initialize_cursor:
  "initialize E s = Inr s' \<Longrightarrow> cursor_inv s \<Longrightarrow> cursor_inv s'"
  by (auto simp: initialize_def initialize_basics_def lock_pool_def unlock_pool_def Let_def
                 cursor_inv_def split: if_splits)

text \<open>
  C8. Every public operation that returns leaves \<^verbatim>\<open>pool_writepos\<close> and
  \<^verbatim>\<open>pool_readpos\<close> below \<^verbatim>\<open>POOLSIZE\<close> when it held them there at its
  start; so does every chunk of \<^verbatim>\<open>_gcry_rngcsprng_add_bytes\<close>, which
  releases the lock after each chunk; and the cursors of the module before its
  first call are zero. Within a call the lock is released only at these points,
  so the cursors are inside the pool whenever the lock is released.
\<close>

theorem cursor_invariant:
  assumes "cursor_inv s"
  shows "(\<forall>s'. run_op E op s = Inr s' \<longrightarrow> cursor_inv s')
         \<and> (\<forall>piece s'. add_bytes_step E piece s = Inr s' \<longrightarrow> cursor_inv s' \<and> \<not> pool_is_locked s')
         \<and> cursor_inv (init_state sf replies)"
proof -
  have "run_op E op s = Inr s' \<Longrightarrow> cursor_inv s'" for s'
  proof (cases op)
    case (Op_initialize full)
    assume "run_op E op s = Inr s'"
    then show ?thesis
      using Op_initialize assms initialize_cursor[of E s s']
      by (auto simp: rngcsprng_initialize_def initialize_basics_def cursor_inv_def split: if_splits)
  next
    case Op_close_fds
    assume "run_op E op s = Inr s'"
    then show ?thesis
      using Op_close_fds
      by (auto simp: rngcsprng_close_fds_def lock_pool_def unlock_pool_def cursor_inv_def)
  next
    case (Op_add_bytes buf quality)
    assume "run_op E op s = Inr s'"
    then show ?thesis
      using Op_add_bytes assms by (auto simp: bindf_eq_Inr dest: add_bytes_cursor)
  next
    case (Op_randomize buffer len level)
    assume "run_op E op s = Inr s'"
    then show ?thesis
      using Op_randomize assms by (auto simp: bindf_eq_Inr dest: randomize_cursor)
  next
    case Op_update_seed_file
    assume "run_op E op s = Inr s'"
    then show ?thesis
      using Op_update_seed_file assms by (auto dest: update_seed_file_cursor)
  next
    case Op_fast_poll
    assume "run_op E op s = Inr s'"
    then show ?thesis
      using Op_fast_poll assms by (auto dest: fast_poll_cursor)
  next
    case Op_is_faked
    assume "run_op E op s = Inr s'"
    then show ?thesis
      using Op_is_faked assms
      by (auto simp: rngcsprng_is_faked_def bindf_eq_Inr dest: initialize_cursor)
  qed
  moreover have "cursor_inv (init_state sf replies)"
    by (simp add: cursor_inv_def init_state_def)
  ultimately show ?thesis
    using add_bytes_step_cursor[OF _ assms] by blast
qed

theorem cursor_invariant_witness:
  "cursor_inv idle_state
   \<and> (\<exists>s'. run_op test_env (Op_add_bytes (Some (replicate 64 0x41)) 50) idle_state = Inr s'
            \<and> cursor_inv s' \<and> \<not> pool_is_locked s')"
proof -
  have c: "chunks_of POOLSIZE (replicate 64 (0x41::byte)) = [replicate 64 0x41]"
    by (rule chunks_of_short) simp_all
  have n: "rndpool idle_state \<noteq> None" by (simp add: idle_state_simps)
  from add_pieces_one[OF n, of test_env "replicate 64 0x41"] obtain s' where
    p: "add_pieces test_env [replicate 64 0x41] idle_state = Inr s'" "\<not> pool_is_locked s'"
    by blast
  have r: "run_op test_env (Op_add_bytes (Some (replicate 64 0x41)) 50) idle_state = Inr s'"
    by (simp add: rngcsprng_add_bytes_def normalize_quality_def Let_def add_bytes_loop_pieces c
                  initialize_basics_def idle_state_simps p(1) del: add_pieces.simps)
  have i: "cursor_inv idle_state" by (simp add: cursor_inv_def idle_state_simps)
  from cursor_invariant[OF i, of test_env "Op_add_bytes (Some (replicate 64 0x41)) 50" SF_enoent "[]"]
  show ?thesis using i r p(2) by simp
qed

section \<open>The first strong seeding\<close>

text \<open>
  C10. \<^verbatim>\<open>read_pool\<close> never ends in the \<^verbatim>\<open>BUG ()\<close> of the first seeding
  for level 2, whatever it is called with: a request above \<^verbatim>\<open>POOLSIZE\<close> ends
  at the check of the length before any seeding. And the block of the first
  seeding, run with a length of at most \<^verbatim>\<open>POOLSIZE\<close>, does not reach its
  \<^verbatim>\<open>BUG ()\<close>.
\<close>

theorem initial_seeding_bug_unreachable:
  "read_pool E buffer p len level s \<noteq> Inl BUG_initial_seeding
   \<and> (len \<le> POOLSIZE \<longrightarrow> initial_extra_seeding E len level s \<noteq> Inl BUG_initial_seeding)"
proof -
  have "read_pool E buffer p len level s \<noteq> Inl BUG_initial_seeding"
    using read_pool_once_Inl[of E buffer p len level s]
    by (auto simp: read_pool_def read_pool_retry_eq split: if_splits sum.splits)
  moreover have "len \<le> POOLSIZE \<longrightarrow> initial_extra_seeding E len level s \<noteq> Inl BUG_initial_seeding"
    using initial_extra_seeding_Inl[of E len level s] by blast
  ultimately show ?thesis by simp
qed

theorem initial_seeding_bug_unreachable_witness:
  "(64::nat) \<le> POOLSIZE
   \<and> initial_extra_seeding test_env 64 GCRY_VERY_STRONG_RANDOM polled_state
        \<noteq> Inl BUG_initial_seeding
   \<and> read_pool test_env (replicate 64 0) 0 64 GCRY_VERY_STRONG_RANDOM polled_state
        \<noteq> Inl BUG_initial_seeding
   \<and> initial_extra_seeding test_env 601 GCRY_VERY_STRONG_RANDOM polled_state
        = Inl BUG_initial_seeding
   \<and> read_pool test_env (replicate 601 0) 0 601 GCRY_VERY_STRONG_RANDOM polled_state
        = Inl Log_bug_too_many_random_bits"
proof -
  have a: "initial_extra_seeding test_env 601 GCRY_VERY_STRONG_RANDOM polled_state
             = Inl BUG_initial_seeding"
    by (subst initial_extra_seeding_eq) (simp_all add: polled_state_simps)
  have b: "read_pool test_env (replicate 601 0) 0 601 GCRY_VERY_STRONG_RANDOM polled_state
             = Inl Log_bug_too_many_random_bits"
    by (simp add: read_pool_def read_pool_retry_eq polled_state_simps
                  read_pool_once_oversize[OF polled_state_simps(1)])
  show ?thesis
    using initial_seeding_bug_unreachable
            [of test_env "replicate 64 0" 0 64 GCRY_VERY_STRONG_RANDOM polled_state]
          a b
    by simp
qed

section \<open>The key pool after an extraction\<close>

text \<open>
  C5, as the code has it. After every return of \<^verbatim>\<open>read_pool\<close> the first
  \<^verbatim>\<open>POOLSIZE\<close> bytes of \<^verbatim>\<open>keypool\<close> are zero. The 64 bytes behind them,
  the hash buffer of \<^verbatim>\<open>mix_pool\<close>, are not cleared: they are what the mixing of
  \<^verbatim>\<open>keypool\<close> left there. The buffer keeps its \<^verbatim>\<open>POOLSIZE + BLOCKLEN\<close>
  bytes.
\<close>

theorem read_pool_clears_keypool:
  assumes "read_pool E buffer p len level s = Inr (buffer', s')"
  shows "\<exists>kp K. keypool s' = Some kp \<and> take POOLSIZE kp = replicate POOLSIZE 0
           \<and> drop POOLSIZE kp = drop POOLSIZE (mix_buffer (e_hash E) None K)
           \<and> (key_ok s \<longrightarrow> length kp = POOLSIZE + BLOCKLEN)"
proof -
  from read_pool_Inr[OF assms] obtain p' where
    o: "read_pool_once E buffer p len level s = Inr (False, buffer', p', s')" by blast
  from read_pool_once_Inr(5)[OF o] obtain K where
    k: "keypool s' = Some (memcpy (mix_buffer (e_hash E) None K) 0 (replicate POOLSIZE 0))"
    and l: "key_ok s \<longrightarrow> length K = POOLSIZE + BLOCKLEN" by blast
  let ?kp = "memcpy (mix_buffer (e_hash E) None K) 0 (replicate POOLSIZE 0)"
  have d: "drop POOLSIZE ?kp = drop POOLSIZE (mix_buffer (e_hash E) None K)"
    by (simp add: memcpy_def)
  have "key_ok s \<longrightarrow> length ?kp = POOLSIZE + BLOCKLEN"
  proof
    assume "key_ok s"
    then have "length (mix_buffer (e_hash E) None K) = POOLSIZE + BLOCKLEN"
      using l length_mix_buffer by blast
    then show "length ?kp = POOLSIZE + BLOCKLEN"
      by (subst length_memcpy) simp_all
  qed
  then show ?thesis using k d take_memset by blast
qed

theorem read_pool_clears_keypool_witness:
  "\<exists>b' s'. read_pool test_env (replicate 32 0) 0 32 GCRY_STRONG_RANDOM fill_state = Inr (b', s')
      \<and> (\<exists>kp. keypool s' = Some kp \<and> take POOLSIZE kp = replicate POOLSIZE 0
               \<and> length kp = POOLSIZE + BLOCKLEN)"
proof -
  from read_pool_fill_test[where buffer = "replicate 32 0" and p = 0
                            and g = "getbytes1 fill_state" and n = "ngetbytes1 fill_state"]
  obtain b' s' where
    r: "read_pool test_env (replicate 32 0) 0 32 GCRY_STRONG_RANDOM fill_state = Inr (b', s')"
    unfolding fill_state_same by blast
  from read_pool_clears_keypool[OF r] show ?thesis
    using r fill_state_simps(10) by blast
qed

text \<open>
  C5, as the claim states it, fails for the 64-byte tail: after 32 bytes have
  been extracted at level \<open>STRONG\<close> from the module whose gatherer filled the
  pool, the byte of \<^verbatim>\<open>keypool\<close> at index \<^verbatim>\<open>POOLSIZE\<close> is 1, a digest byte
  of the hash stub.
\<close>

theorem keypool_tail_counterexample:
  "\<not> isl (read_pool test_env (replicate 32 0) 0 32 GCRY_STRONG_RANDOM fill_state)
   \<and> the (keypool (snd (projr (read_pool test_env (replicate 32 0) 0 32 GCRY_STRONG_RANDOM
                                   fill_state)))) ! POOLSIZE = 1"
proof -
  from read_pool_fill_test[where buffer = "replicate 32 0" and p = 0
                            and g = "getbytes1 fill_state" and n = "ngetbytes1 fill_state"]
  obtain b' s' where
    r: "read_pool test_env (replicate 32 0) 0 32 GCRY_STRONG_RANDOM fill_state = Inr (b', s')"
    unfolding fill_state_same by blast
  from read_pool_Inr[OF r] obtain p' where
    o: "read_pool_once test_env (replicate 32 0) 0 32 GCRY_STRONG_RANDOM fill_state
          = Inr (False, b', p', s')" by blast
  from read_pool_once_Inr(5)[OF o] obtain K where
    k: "keypool s' = Some (memcpy (mix_buffer const_prims None K) 0 (replicate POOLSIZE 0))"
    and l: "length K = POOLSIZE + BLOCKLEN"
    using fill_state_simps(10) by (auto simp: test_env_simps)
  have "memcpy (mix_buffer const_prims None K) 0 (replicate POOLSIZE 0) ! POOLSIZE
          = mix_buffer const_prims None K ! POOLSIZE"
    using length_mix_buffer[OF l, of const_prims None]
    by (simp add: memcpy_def nth_append)
  then show ?thesis using r k mix_buffer_tail[OF l, of None] by simp
qed

section \<open>The retry after a fork\<close>

text \<open>
  C7. A request of 32 bytes through \<^verbatim>\<open>_gcry_rngcsprng_randomize\<close>, in a
  process whose pid changes while \<^verbatim>\<open>read_pool\<close> runs, ends in
  \<^verbatim>\<open>log_bug ("too many random bits requested")\<close>: the fork check after the
  read-out takes \<^verbatim>\<open>goto retry\<close>, and by then \<^verbatim>\<open>while (length--)\<close> has left
  \<^verbatim>\<open>length\<close> at \<^verbatim>\<open>(size_t)-1\<close>. The same request in a process whose pid
  stays the same returns.
\<close>

theorem randomize_retry_oversize:
  "rngcsprng_randomize fork_env (replicate 32 0) 32 GCRY_STRONG_RANDOM fresh_state
     = Inl Log_bug_too_many_random_bits
   \<and> \<not> isl (rngcsprng_randomize test_env (replicate 32 0) 32 GCRY_STRONG_RANDOM fresh_state)"
proof -
  have m: "min 32 POOLSIZE = 32" by simp
  have a: "rngcsprng_randomize fork_env (replicate 32 0) 32 GCRY_STRONG_RANDOM fresh_state
     = Inl Log_bug_too_many_random_bits"
    unfolding randomize_start[OF initialize_fresh_state(2)]
    by (subst randomize_loop_eq) (simp add: read_pool_fill_fork[unfolded One_nat_def])
  from read_pool_fill_test[where buffer = "replicate 32 0" and p = 0 and g = 32 and n = 1] obtain b' s' where
    r: "read_pool test_env (replicate 32 0) 0 32 GCRY_STRONG_RANDOM
          (fill_state\<lparr>getbytes1 := 32, ngetbytes1 := 1\<rparr>) = Inr (b', s')"
    by blast
  have e: "randomize_loop test_env b' 32 0 GCRY_STRONG_RANDOM s' = Inr (b', s')"
    by (subst randomize_loop_eq) simp
  have "rngcsprng_randomize test_env (replicate 32 0) 32 GCRY_STRONG_RANDOM fresh_state
     = Inr (b', unlock_pool s')"
    unfolding randomize_start[OF initialize_fresh_state(1)]
    by (subst randomize_loop_eq) (simp add: r[unfolded One_nat_def] e[unfolded One_nat_def])
  then show ?thesis using a by simp
qed

end
